theory Spec2Isabelle
  imports Main "HOL-Library.Word"
begin

section \<open>Values of the host platform\<close>

text \<open>
  The component of \<^verbatim>\<open>src/components/face/FaceCamera.tsx\<close> is embedded with explicit
  state passing. Everything the browser decides (the permission probe, the outcome of each
  device request, the events and the decoding-readiness level of the video element, the
  pixels that are painted) is an input of the operation that reads it.
\<close>

text \<open>A thrown JavaScript value, as far as the handlers inspect it:
  \<^verbatim>\<open>error instanceof Error\<close>, \<^verbatim>\<open>error.name\<close>, \<^verbatim>\<open>error.message\<close>.\<close>

record js_error =
  instance_of_Error :: bool
  error_name :: string
  error_message :: string

definition new_Error :: "string \<Rightarrow> js_error" where
  "new_Error msg = \<lparr>instance_of_Error = True, error_name = ''Error'', error_message = msg\<rparr>"

text \<open>A \<^verbatim>\<open>MediaStream\<close>: the hardware tracks it holds, named by number.\<close>

record media_stream =
  getTracks :: "nat list"

text \<open>The constraint sets handed to \<^verbatim>\<open>getUserMedia\<close>.\<close>

record range =
  ideal :: nat
  minimum :: nat

datatype facing = Exact string | Plain string

datatype video_request =
    VideoTrue
  | VideoWith (facingMode: facing) (want_width: "range option")
      (want_height: "range option") (want_frameRate: "range option")

record constraints =
  video :: video_request
  audio :: bool

text \<open>An RGBA pixel of a canvas bitmap, one byte per channel.\<close>

type_synonym pixel = "8 word \<times> 8 word \<times> 8 word \<times> 8 word"

record canvas =
  canvas_width :: nat
  canvas_height :: nat
  bitmap :: "nat \<Rightarrow> nat \<Rightarrow> pixel"

record video_element =
  srcObject :: "media_stream option"
  muted :: bool
  attributes :: "(string \<times> string) list"

text \<open>The events of the video element the readiness wait listens to.\<close>

datatype signal = LoadedData | CanPlay | VideoError

text \<open>The result of the permission probe \<^verbatim>\<open>checkCameraAccess\<close>.\<close>

record access_check =
  available :: bool
  access_error :: "string option"

text \<open>
  What the browser answers during one call of an operation. \<open>isMobile\<close> is the result of
  the test of \<^verbatim>\<open>navigator.userAgent\<close> against the list of mobile devices.
  \<open>getUserMedia i c\<close> is the outcome of the \<open>i\<close>-th device request of the call, made with
  constraints \<open>c\<close>: a rejection or a stream (an object, hence truthy). \<open>video_events\<close> are
  the events the video element fires, each with its time in milliseconds after the wait
  began; \<open>readyState t\<close> is the decoding-readiness level read \<open>t\<close> milliseconds into the
  call. The natural and the client dimensions are those read by \<^verbatim>\<open>capture\<close>;
  \<open>getContext2d\<close> tells whether the canvas gives a drawing context, and \<open>drawImage w h\<close> is
  the outcome of painting the current frame at size \<open>w \<times> h\<close>: an exception or the pixels.
  Sizes are natural numbers. The call \<^verbatim>\<open>video.play()\<close> on mobile devices, whose failure
  the code only logs, shows in the events the browser fires.
\<close>

record browser =
  checkCameraAccess :: access_check
  isMobile :: bool
  getUserMedia :: "nat \<Rightarrow> constraints \<Rightarrow> js_error + media_stream"
  video_events :: "(nat \<times> signal) list"
  readyState :: "nat \<Rightarrow> nat"
  videoWidth :: nat
  videoHeight :: nat
  clientWidth :: nat
  clientHeight :: nat
  getContext2d :: bool
  drawImage :: "nat \<Rightarrow> nat \<Rightarrow> js_error + (nat \<Rightarrow> nat \<Rightarrow> pixel)"

text \<open>The properties \<^verbatim>\<open>width\<close> and \<^verbatim>\<open>height\<close> of the component (default 320 and 240).\<close>

record props =
  width :: nat
  height :: nat

section \<open>The state of the component\<close>

text \<open>Calls of the callbacks \<^verbatim>\<open>onCameraReady\<close> and \<^verbatim>\<open>onError\<close>.\<close>

datatype notification = CameraReady bool | ErrorOccurred string

text \<open>
  The React state (\<open>isLoading\<close>, \<open>isActive\<close>, \<open>error\<close>, \<open>hasPermission\<close>), the three refs,
  and the part of the page the component writes: the canvas elements (a store from
  references to canvases, since \<^verbatim>\<open>capture\<close> returns a reference), the tracks on which
  \<^verbatim>\<open>stop()\<close> was called, the callbacks called, the device requests made and the delays
  awaited.
\<close>

record state =
  isLoading :: bool
  isActive :: bool
  error :: "string option"
  hasPermission :: "bool option"
  streamRef :: "media_stream option"
  videoRef :: "video_element option"
  canvasRef :: "nat option"
  canvases :: "nat \<Rightarrow> canvas"
  stopped :: "nat set"
  notifications :: "notification list"
  requests :: "constraints list"
  awaited :: "nat list"

section \<open>stopCamera\<close>

definition track_stop :: "state \<Rightarrow> nat \<Rightarrow> state" where
  "track_stop s t = s\<lparr>stopped := insert t (stopped s)\<rparr>"

definition stopCamera :: "state \<Rightarrow> state" where
  "stopCamera s =
     (let s1 = (case streamRef s of
                  Some stream \<Rightarrow> (foldl track_stop s (getTracks stream))\<lparr>streamRef := None\<rparr>
                | None \<Rightarrow> s);
          s2 = (case videoRef s1 of
                  Some v \<Rightarrow> s1\<lparr>videoRef := Some (v\<lparr>srcObject := None\<rparr>)\<rparr>
                | None \<Rightarrow> s1)
      in s2\<lparr>isActive := False, notifications := notifications s2 @ [CameraReady False]\<rparr>)"

section \<open>startCamera: the constraint candidates\<close>

text \<open>The list \<^verbatim>\<open>constraintOptions\<close>; both branches of the device test give the same
  ranges in the first candidate, as in the source.\<close>

definition constraintOptions :: "bool \<Rightarrow> constraints list" where
  "constraintOptions mobile =
     [\<lparr>video = VideoWith (Exact ''user'')
          (Some (if mobile then \<lparr>ideal = 640, minimum = 320\<rparr> else \<lparr>ideal = 640, minimum = 320\<rparr>))
          (Some (if mobile then \<lparr>ideal = 480, minimum = 240\<rparr> else \<lparr>ideal = 480, minimum = 240\<rparr>))
          (Some \<lparr>ideal = 30, minimum = 15\<rparr>),
        audio = False\<rparr>,
      \<lparr>video = VideoWith (Plain ''user'')
          (Some \<lparr>ideal = 480, minimum = 240\<rparr>)
          (Some \<lparr>ideal = 360, minimum = 180\<rparr>)
          (Some \<lparr>ideal = 24, minimum = 10\<rparr>),
        audio = False\<rparr>,
      \<lparr>video = VideoWith (Plain ''user'') None None None, audio = False\<rparr>,
      \<lparr>video = VideoTrue, audio = False\<rparr>]"

text \<open>
  The loop \<^verbatim>\<open>for (let i = 0; i < constraintOptions.length; i++)\<close>. Every request is
  recorded in \<open>requests\<close>. The result is \<open>Inl e\<close> when the loop rethrows \<open>e\<close>, and otherwise
  the values of \<^verbatim>\<open>stream\<close> and \<^verbatim>\<open>lastError\<close> when the loop is left.
\<close>

function tryOptions ::
  "(nat \<Rightarrow> constraints \<Rightarrow> js_error + media_stream) \<Rightarrow> constraints list \<Rightarrow> nat \<Rightarrow>
   js_error option \<Rightarrow> state \<Rightarrow> (js_error + media_stream option \<times> js_error option) \<times> state"
where
  "tryOptions gum opts i lastError s =
     (if i < length opts then
        (let s' = s\<lparr>requests := requests s @ [opts ! i]\<rparr> in
         case gum i (opts ! i) of
           Inr stream \<Rightarrow> (Inr (Some stream, lastError), s')
         | Inl e \<Rightarrow>
             if error_name e = ''NotAllowedError'' then (Inl e, s')
             else tryOptions gum opts (i + 1) (Some e) s')
      else (Inr (None, lastError), s))"
  by pat_completeness auto
termination
  by (relation "measure (\<lambda>(gum, opts, i, lastError, s). length opts - i)") auto

declare tryOptions.simps [simp del]

section \<open>startCamera: the readiness wait\<close>

text \<open>
  The promise of the wait is settled by the first call of \<^verbatim>\<open>resolve\<close> or
  \<^verbatim>\<open>reject\<close>; later calls have no effect. The wait records every call, in order.
\<close>

datatype settle = Resolve | Reject js_error

datatype promise = Pending | Fulfilled | Rejected js_error

fun promise_of :: "settle list \<Rightarrow> promise" where
  "promise_of [] = Pending"
| "promise_of (Resolve # _) = Fulfilled"
| "promise_of (Reject e # _) = Rejected e"

record wait =
  resolved :: bool
  listeners :: "signal set"
  settled :: "settle list"

text \<open>The tasks the event loop runs during the wait: an event of the video element, or
  one of the timers set with \<^verbatim>\<open>setTimeout\<close>.\<close>

datatype task = Dispatch signal | FallbackTimeout | UltimateTimeout | StabilizationTimeout

definition removeListeners :: "wait \<Rightarrow> wait" where
  "removeListeners w = w\<lparr>listeners := listeners w - {LoadedData} - {CanPlay} - {VideoError}\<rparr>"

text \<open>A handler returns the wait and the timers it sets, each with its delay.\<close>

definition onLoadedData :: "bool \<Rightarrow> wait \<Rightarrow> wait \<times> (nat \<times> task) list" where
  "onLoadedData mobile w =
     (if resolved w then (w, [])
      else (let w' = removeListeners (w\<lparr>resolved := True\<rparr>) in
            if mobile then (w', [(1000, StabilizationTimeout)])
            else (w'\<lparr>settled := settled w' @ [Resolve]\<rparr>, [])))"

definition onCanPlay :: "bool \<Rightarrow> wait \<Rightarrow> wait \<times> (nat \<times> task) list" where
  "onCanPlay mobile w = (if resolved w then (w, []) else onLoadedData mobile w)"

definition onVideoError :: "wait \<Rightarrow> wait \<times> (nat \<times> task) list" where
  "onVideoError w =
     (if resolved w then (w, [])
      else (let w' = removeListeners (w\<lparr>resolved := True\<rparr>) in
            (w'\<lparr>settled := settled w' @ [Reject (new_Error ''Video failed to load'')]\<rparr>, [])))"

definition not_ready_message :: "bool \<Rightarrow> string" where
  "not_ready_message mobile =
     ''Video not ready after '' @ (if mobile then ''8'' else ''5'') @ '' seconds''"

text \<open>One task; \<open>rs\<close> is \<^verbatim>\<open>video.readyState\<close> when the task runs. An event runs its
  handler only while the listener is registered.\<close>

fun run_task :: "bool \<Rightarrow> nat \<Rightarrow> task \<Rightarrow> wait \<Rightarrow> wait \<times> (nat \<times> task) list" where
  "run_task mobile rs (Dispatch LoadedData) w =
     (if LoadedData \<in> listeners w then onLoadedData mobile w else (w, []))"
| "run_task mobile rs (Dispatch CanPlay) w =
     (if CanPlay \<in> listeners w then onCanPlay mobile w else (w, []))"
| "run_task mobile rs (Dispatch VideoError) w =
     (if VideoError \<in> listeners w then onVideoError w else (w, []))"
| "run_task mobile rs FallbackTimeout w =
     (if \<not> resolved w \<and> rs \<ge> 2 then onLoadedData mobile w else (w, []))"
| "run_task mobile rs UltimateTimeout w =
     (if \<not> resolved w
      then (w\<lparr>settled := settled w @ [Reject (new_Error (not_ready_message mobile))]\<rparr>, [])
      else (w, []))"
| "run_task mobile rs StabilizationTimeout w = (w\<lparr>settled := settled w @ [Resolve]\<rparr>, [])"

text \<open>The task queue, ordered by time; tasks due at the same time run in the order in
  which they were queued.\<close>

fun enqueue :: "nat \<times> task \<Rightarrow> (nat \<times> task) list \<Rightarrow> (nat \<times> task) list" where
  "enqueue x [] = [x]"
| "enqueue x (y # ys) = (if fst x < fst y then x # y # ys else y # enqueue x ys)"

definition set_timers :: "nat \<Rightarrow> (nat \<times> task) list \<Rightarrow> (nat \<times> task) list \<Rightarrow> (nat \<times> task) list" where
  "set_timers now timers q = foldl (\<lambda>q (delay, t). enqueue (now + delay, t) q) q timers"

lemma length_enqueue: "length (enqueue x q) = Suc (length q)"
  by (induction q) auto

lemma length_set_timers: "length (set_timers now timers q) = length q + length timers"
  by (induction timers arbitrary: q) (auto simp: set_timers_def length_enqueue)

lemma run_task_measure:
  "run_task mobile rs t w = (w', timers) \<Longrightarrow>
   length timers + (if resolved w' then 0 else 1) \<le> (if resolved w then 0 else 1)"
proof (cases t)
  case (Dispatch e)
  assume "run_task mobile rs t w = (w', timers)"
  with Dispatch show ?thesis
    by (cases e)
       (auto simp: onLoadedData_def onCanPlay_def onVideoError_def removeListeners_def Let_def
             split: if_splits)
next
  case FallbackTimeout
  assume "run_task mobile rs t w = (w', timers)"
  with FallbackTimeout show ?thesis
    by (auto simp: onLoadedData_def removeListeners_def Let_def split: if_splits)
next
  case UltimateTimeout
  assume "run_task mobile rs t w = (w', timers)"
  with UltimateTimeout show ?thesis
    by (auto split: if_splits)
next
  case StabilizationTimeout
  assume "run_task mobile rs t w = (w', timers)"
  with StabilizationTimeout show ?thesis
    by auto
qed

text \<open>The event loop runs the queued tasks in order until none is left. Its value is
  the run: the wait before each task, then the wait at the end.\<close>

function event_loop :: "bool \<Rightarrow> (nat \<Rightarrow> nat) \<Rightarrow> (nat \<times> task) list \<Rightarrow> wait \<Rightarrow> wait list" where
  "event_loop mobile rs [] w = [w]"
| "event_loop mobile rs ((now, t) # q) w =
     (case run_task mobile (rs now) t w of
        (w', timers) \<Rightarrow> w # event_loop mobile rs (set_timers now timers q) w')"
  by pat_completeness auto
termination
  apply (relation "measure (\<lambda>(mobile, rs, q, w). length q + (if resolved w then 0 else 1))")
   apply simp
  apply (drule sym)
  apply (drule run_task_measure)
  apply (simp add: length_set_timers split: if_splits)
  done

declare event_loop.simps [simp del]

text \<open>
  The executor of the promise: the three listeners are registered, the two timers are set,
  and the events of the video element are queued at their times.
\<close>

definition initial_wait :: wait where
  "initial_wait = \<lparr>resolved = False, listeners = {LoadedData, CanPlay, VideoError}, settled = []\<rparr>"

definition fallback_delay :: "bool \<Rightarrow> nat" where
  "fallback_delay mobile = (if mobile then 3000 else 2000)"

definition ultimate_delay :: "bool \<Rightarrow> nat" where
  "ultimate_delay mobile = (if mobile then 8000 else 5000)"

definition initial_queue :: "bool \<Rightarrow> (nat \<times> signal) list \<Rightarrow> (nat \<times> task) list" where
  "initial_queue mobile events =
     foldl (\<lambda>q (time, e). enqueue (time, Dispatch e) q)
       (set_timers 0 [(fallback_delay mobile, FallbackTimeout),
                      (ultimate_delay mobile, UltimateTimeout)] [])
       events"

definition waitForVideo_run :: "browser \<Rightarrow> wait list" where
  "waitForVideo_run h =
     event_loop (isMobile h) (readyState h) (initial_queue (isMobile h) (video_events h))
       initial_wait"

definition waitForVideo :: "browser \<Rightarrow> wait" where
  "waitForVideo h = last (waitForVideo_run h)"

section \<open>startCamera\<close>

text \<open>How a block of the function ends: it returns, it throws, or (when it awaits a
  promise that is never settled) it never continues.\<close>

datatype 'a completion = Returned 'a | Threw js_error | Hung

definition setAttribute :: "string \<Rightarrow> string \<Rightarrow> video_element \<Rightarrow> video_element" where
  "setAttribute k v el =
     el\<lparr>attributes := (k, v) # filter (\<lambda>kv. fst kv \<noteq> k) (attributes el)\<rparr>"

text \<open>The part of the \<^verbatim>\<open>try\<close> block that runs when a stream was acquired and the
  video element exists: the element is configured, the stream is bound, and the readiness
  wait is awaited.\<close>

definition bind_and_wait ::
  "browser \<Rightarrow> media_stream \<Rightarrow> video_element \<Rightarrow> state \<Rightarrow> bool completion \<times> state" where
  "bind_and_wait h stream video0 s3 =
     (let video1 = setAttribute ''playsinline'' ''true'' video0;
          video2 = setAttribute ''webkit-playsinline'' ''true'' video1;
          video3 = setAttribute ''autoplay'' ''true'' video2;
          video4 = video3\<lparr>muted := True\<rparr>;
          video5 = video4\<lparr>srcObject := Some stream\<rparr>;
          s4 = s3\<lparr>videoRef := Some video5, streamRef := Some stream\<rparr>
      in
      case promise_of (settled (waitForVideo h)) of
        Pending \<Rightarrow> (Hung, s4)
      | Rejected e \<Rightarrow> (Threw e, s4)
      | Fulfilled \<Rightarrow>
          (Returned True,
           s4\<lparr>isActive := True, notifications := notifications s4 @ [CameraReady True]\<rparr>))"

text \<open>The state when the loop over the candidates begins: the permission probe has
  succeeded.\<close>

definition ladder_start :: "state \<Rightarrow> state" where
  "ladder_start s0 = s0\<lparr>isLoading := True, error := None, hasPermission := Some True\<rparr>"

text \<open>The body of \<^verbatim>\<open>try\<close>.\<close>

definition try_block :: "browser \<Rightarrow> state \<Rightarrow> bool completion \<times> state" where
  "try_block h s0 =
     (let s1 = s0\<lparr>isLoading := True, error := None\<rparr>;
          accessCheck = checkCameraAccess h
      in
      if \<not> available accessCheck then
        (let errorMsg = (case access_error accessCheck of
                           Some m \<Rightarrow> if m = [] then ''Camera not available'' else m
                         | None \<Rightarrow> ''Camera not available'')
         in (Returned False,
             s1\<lparr>error := Some errorMsg,
                notifications := notifications s1 @ [ErrorOccurred errorMsg],
                hasPermission := Some False\<rparr>))
      else
        (let s2 = s1\<lparr>hasPermission := Some True\<rparr>;
             mobile = isMobile h
         in
         case tryOptions (getUserMedia h) (constraintOptions mobile) 0 None s2 of
           (Inl e, s3) \<Rightarrow> (Threw e, s3)
         | (Inr (None, lastError), s3) \<Rightarrow>
             (Threw (case lastError of
                       Some e \<Rightarrow> e
                     | None \<Rightarrow> new_Error ''Failed to access any camera configuration''),
              s3)
         | (Inr (Some stream, lastError), s3) \<Rightarrow>
             (case videoRef s3 of
                None \<Rightarrow> (Returned False, s3)
              | Some video0 \<Rightarrow> bind_and_wait h stream video0 s3)))"

text \<open>The message the \<^verbatim>\<open>catch\<close> block computes, and the block itself.\<close>

definition errorMessageFor :: "js_error \<Rightarrow> string" where
  "errorMessageFor e =
     (if instance_of_Error e then
        (if error_name e = ''NotAllowedError''
         then ''Camera access denied. Please allow camera permissions and try again.''
         else if error_name e = ''NotFoundError''
         then ''No camera found on this device.''
         else if error_name e = ''NotReadableError''
         then ''Camera is already in use by another application.''
         else if error_message e \<noteq> [] then error_message e else ''Failed to access camera'')
      else ''Failed to access camera'')"

definition catch_block :: "js_error \<Rightarrow> state \<Rightarrow> bool \<times> state" where
  "catch_block e s =
     (let errorMessage = errorMessageFor e;
          s1 = (if instance_of_Error e \<and> error_name e = ''NotAllowedError''
                then s\<lparr>hasPermission := Some False\<rparr> else s)
      in (False,
          s1\<lparr>error := Some errorMessage,
             notifications := notifications s1 @ [ErrorOccurred errorMessage],
             hasPermission := Some False\<rparr>))"

text \<open>The whole function: \<^verbatim>\<open>finally\<close> runs after a return and after the
  \<^verbatim>\<open>catch\<close> block. The result \<open>None\<close> stands for a call that never returns.\<close>

definition startCamera :: "browser \<Rightarrow> state \<Rightarrow> bool option \<times> state" where
  "startCamera h s =
     (case try_block h s of
        (Returned b, s') \<Rightarrow> (Some b, s'\<lparr>isLoading := False\<rparr>)
      | (Threw e, s') \<Rightarrow>
          (case catch_block e s' of (b, s'') \<Rightarrow> (Some b, s''\<lparr>isLoading := False\<rparr>))
      | (Hung, s') \<Rightarrow> (None, s'))"

section \<open>capture\<close>

text \<open>
  \<^verbatim>\<open>getImageData(0, 0, sw, sh).data\<close>: the bytes of the top-left block, row by row,
  four per pixel (red, green, blue, alpha).
\<close>

fun channel :: "nat \<Rightarrow> pixel \<Rightarrow> 8 word" where
  "channel c (r, g, b, a) = (if c = 0 then r else if c = 1 then g else if c = 2 then b else a)"

definition getImageData :: "(nat \<Rightarrow> nat \<Rightarrow> pixel) \<Rightarrow> nat \<Rightarrow> nat \<Rightarrow> 8 word list" where
  "getImageData bm sw sh =
     map (\<lambda>i. channel (i mod 4) (bm ((i div 4) mod sw) ((i div 4) div sw))) [0..<4 * sw * sh]"

text \<open>\<^verbatim>\<open>data.every((channel, index) => ...)\<close>.\<close>

definition every :: "('a \<Rightarrow> nat \<Rightarrow> bool) \<Rightarrow> 'a list \<Rightarrow> bool" where
  "every p xs = list_all (\<lambda>(index, x). p x index) (zip [0..<length xs] xs)"

definition isBlank :: "8 word list \<Rightarrow> bool" where
  "isBlank data = every (\<lambda>channel index. index mod 4 = 3 \<or> channel = 0) data"

definition transparent :: "nat \<Rightarrow> nat \<Rightarrow> pixel" where
  "transparent = (\<lambda>x y. (0, 0, 0, 0))"

text \<open>\<^verbatim>\<open>clearRect(0, 0, w, h)\<close> and \<^verbatim>\<open>drawImage(video, 0, 0, w, h)\<close> on a bitmap.\<close>

definition clearRect :: "nat \<Rightarrow> nat \<Rightarrow> (nat \<Rightarrow> nat \<Rightarrow> pixel) \<Rightarrow> nat \<Rightarrow> nat \<Rightarrow> pixel" where
  "clearRect w h bm = (\<lambda>x y. if x < w \<and> y < h then (0, 0, 0, 0) else bm x y)"

definition paint ::
  "nat \<Rightarrow> nat \<Rightarrow> (nat \<Rightarrow> nat \<Rightarrow> pixel) \<Rightarrow> (nat \<Rightarrow> nat \<Rightarrow> pixel) \<Rightarrow> nat \<Rightarrow> nat \<Rightarrow> pixel" where
  "paint w h img bm = (\<lambda>x y. if x < w \<and> y < h then img x y else bm x y)"

text \<open>The dimensions after the fallback for mobile devices
  (\<^verbatim>\<open>video.clientWidth || width\<close>).\<close>

definition resolved_dimensions :: "props \<Rightarrow> browser \<Rightarrow> nat \<times> nat" where
  "resolved_dimensions p h =
     (if (videoWidth h = 0 \<or> videoHeight h = 0) \<and> isMobile h
      then (if clientWidth h \<noteq> 0 then clientWidth h else width p,
            if clientHeight h \<noteq> 0 then clientHeight h else height p)
      else (videoWidth h, videoHeight h))"

text \<open>The function from the check of the dimensions on; \<open>c\<close> is the reference
  \<^verbatim>\<open>canvasRef.current\<close>. An exception in the \<^verbatim>\<open>try\<close> block is caught and gives
  \<^verbatim>\<open>null\<close>.\<close>

definition capture_frame :: "props \<Rightarrow> browser \<Rightarrow> nat \<Rightarrow> state \<Rightarrow> nat option \<times> state" where
  "capture_frame p h c s =
     (case resolved_dimensions p h of
        (vw, vh) \<Rightarrow>
          if vw = 0 \<or> vh = 0 then (None, s)
          else if \<not> getContext2d h then (None, s)
          else
            (let cv = canvases s c;
                 cv1 = cv\<lparr>canvas_width := vw, bitmap := transparent\<rparr>;
                 cv2 = cv1\<lparr>canvas_height := vh, bitmap := transparent\<rparr>;
                 cv3 = cv2\<lparr>bitmap := clearRect vw vh (bitmap cv2)\<rparr>
             in
             case drawImage h vw vh of
               Inl e \<Rightarrow> (None, s\<lparr>canvases := (canvases s)(c := cv3)\<rparr>)
             | Inr img \<Rightarrow>
                 (let cv4 = cv3\<lparr>bitmap := paint vw vh img (bitmap cv3)\<rparr>;
                      s' = s\<lparr>canvases := (canvases s)(c := cv4)\<rparr>;
                      imageData = getImageData (bitmap cv4) (min 10 vw) (min 10 vh)
                  in if isBlank imageData then (None, s') else (Some c, s'))))"

definition capture :: "props \<Rightarrow> browser \<Rightarrow> state \<Rightarrow> nat option \<times> state" where
  "capture p h s =
     (case (videoRef s, canvasRef s) of
        (Some video0, Some c) \<Rightarrow>
          if \<not> isActive s then (None, s)
          else if readyState h 0 < 2 then
            (if isMobile h \<and> readyState h 0 \<ge> 1 then
               (let s' = s\<lparr>awaited := awaited s @ [500]\<rparr> in
                if readyState h 500 < 2 then (None, s') else capture_frame p h c s')
             else (None, s))
          else capture_frame p h c s
      | _ \<Rightarrow> (None, s))"

section \<open>Sequences of calls\<close>

text \<open>The three operations the component exposes, each with what the browser answers
  during the call, and what the call gives back.\<close>

datatype call = CallStart browser | CallStop | CallCapture browser

datatype outcome = StartResult "bool option" | StopResult | CaptureResult "nat option"

fun perform :: "props \<Rightarrow> call \<Rightarrow> state \<Rightarrow> outcome \<times> state" where
  "perform p (CallStart h) s = (case startCamera h s of (r, s') \<Rightarrow> (StartResult r, s'))"
| "perform p CallStop s = (StopResult, stopCamera s)"
| "perform p (CallCapture h) s = (case capture p h s of (r, s') \<Rightarrow> (CaptureResult r, s'))"

fun perform_all :: "props \<Rightarrow> call list \<Rightarrow> state \<Rightarrow> outcome list \<times> state" where
  "perform_all p [] s = ([], s)"
| "perform_all p (c # cs) s =
     (case perform p c s of
        (r, s') \<Rightarrow> (case perform_all p cs s' of (rs, s'') \<Rightarrow> (r # rs, s'')))"

text \<open>The component after mounting: the video and the canvas (reference 0) exist.\<close>

definition mounted :: state where
  "mounted =
     \<lparr>isLoading = False, isActive = False, error = None, hasPermission = None,
      streamRef = None,
      videoRef = Some \<lparr>srcObject = None, muted = True, attributes = []\<rparr>,
      canvasRef = Some 0,
      canvases = (\<lambda>r. \<lparr>canvas_width = 300, canvas_height = 150, bitmap = transparent\<rparr>),
      stopped = {}, notifications = [], requests = [], awaited = []\<rparr>"

section \<open>The second source file\<close>

text \<open>
  The repository holds a second, simpler version of the same component, with the same
  \<^verbatim>\<open>stopCamera\<close> and the same \<^verbatim>\<open>catch\<close> block. Its \<^verbatim>\<open>startCamera\<close> makes a
  single device request; its readiness wait listens to \<^verbatim>\<open>loadeddata\<close> and
  \<^verbatim>\<open>error\<close> only, has no flag and no ultimate timeout, and its one timer (3000
  milliseconds) calls the handler whenever the readiness level is at least 2; its
  \<^verbatim>\<open>capture\<close> has no wait, falls back to the configured size on every device, and
  tests one pixel with its alpha channel. Its definitions carry the suffix 2.
\<close>

definition constraints2 :: "bool \<Rightarrow> constraints" where
  "constraints2 mobile =
     \<lparr>video = VideoWith (Plain ''user'')
        (Some (if mobile then \<lparr>ideal = 480, minimum = 320\<rparr> else \<lparr>ideal = 640, minimum = 320\<rparr>))
        (Some (if mobile then \<lparr>ideal = 360, minimum = 240\<rparr> else \<lparr>ideal = 480, minimum = 240\<rparr>))
        (Some \<lparr>ideal = 30, minimum = 15\<rparr>),
      audio = False\<rparr>"

text \<open>The handlers of the wait; the flag \<open>resolved\<close> of the wait is not used.\<close>

definition removeListeners2 :: "wait \<Rightarrow> wait" where
  "removeListeners2 w = w\<lparr>listeners := listeners w - {LoadedData} - {VideoError}\<rparr>"

definition onLoadedData2 :: "bool \<Rightarrow> wait \<Rightarrow> wait \<times> (nat \<times> task) list" where
  "onLoadedData2 mobile w =
     (let w' = removeListeners2 w in
      if mobile then (w', [(500, StabilizationTimeout)])
      else (w'\<lparr>settled := settled w' @ [Resolve]\<rparr>, []))"

definition onVideoError2 :: "wait \<Rightarrow> wait \<times> (nat \<times> task) list" where
  "onVideoError2 w =
     (let w' = removeListeners2 w in
      (w'\<lparr>settled := settled w' @ [Reject (new_Error ''Video failed to load'')]\<rparr>, []))"

fun run_task2 :: "bool \<Rightarrow> nat \<Rightarrow> task \<Rightarrow> wait \<Rightarrow> wait \<times> (nat \<times> task) list" where
  "run_task2 mobile rs (Dispatch LoadedData) w =
     (if LoadedData \<in> listeners w then onLoadedData2 mobile w else (w, []))"
| "run_task2 mobile rs (Dispatch CanPlay) w = (w, [])"
| "run_task2 mobile rs (Dispatch VideoError) w =
     (if VideoError \<in> listeners w then onVideoError2 w else (w, []))"
| "run_task2 mobile rs FallbackTimeout w =
     (if rs \<ge> 2 then onLoadedData2 mobile w else (w, []))"
| "run_task2 mobile rs UltimateTimeout w = (w, [])"
| "run_task2 mobile rs StabilizationTimeout w = (w\<lparr>settled := settled w @ [Resolve]\<rparr>, [])"

text \<open>The loop ends: the timer of 3000 milliseconds may set one more timer, an event
  only while its listener is registered.\<close>

fun task_weight :: "task \<Rightarrow> nat" where
  "task_weight FallbackTimeout = 2"
| "task_weight t = 1"

definition queue_weight :: "(nat \<times> task) list \<Rightarrow> nat" where
  "queue_weight q = sum_list (map (\<lambda>x. task_weight (snd x)) q)"

lemma queue_weight_simps [simp]:
  "queue_weight [] = 0"
  "queue_weight (x # q) = task_weight (snd x) + queue_weight q"
  by (simp_all add: queue_weight_def)

lemma queue_weight_enqueue: "queue_weight (enqueue x q) = task_weight (snd x) + queue_weight q"
  by (induction q) auto

lemma queue_weight_set_timers:
  "queue_weight (set_timers now timers q) = queue_weight q + queue_weight timers"
  by (induction timers arbitrary: q) (auto simp: set_timers_def queue_weight_enqueue)

lemma run_task2_measure:
  assumes "run_task2 mobile rs t w = (w', timers)"
  shows "queue_weight timers + (if LoadedData \<in> listeners w' then 1 else 0)
       < task_weight t + (if LoadedData \<in> listeners w then 1 else 0)"
proof (cases t)
  case (Dispatch e)
  with assms show ?thesis
    by (cases e)
       (auto simp: onLoadedData2_def onVideoError2_def removeListeners2_def Let_def
          split: if_splits)
next
  case FallbackTimeout
  with assms show ?thesis
    by (auto simp: onLoadedData2_def removeListeners2_def Let_def split: if_splits)
next
  case UltimateTimeout
  with assms show ?thesis
    by auto
next
  case StabilizationTimeout
  with assms show ?thesis
    by auto
qed

function event_loop2 :: "bool \<Rightarrow> (nat \<Rightarrow> nat) \<Rightarrow> (nat \<times> task) list \<Rightarrow> wait \<Rightarrow> wait list" where
  "event_loop2 mobile rs [] w = [w]"
| "event_loop2 mobile rs ((now, t) # q) w =
     (case run_task2 mobile (rs now) t w of
        (w', timers) \<Rightarrow> w # event_loop2 mobile rs (set_timers now timers q) w')"
  by pat_completeness auto
termination
  apply (relation "measure (\<lambda>(mobile, rs, q, w).
           queue_weight q + (if LoadedData \<in> listeners w then 1 else 0))")
   apply simp
  apply (drule sym)
  apply (drule run_task2_measure)
  apply (simp add: queue_weight_set_timers split: if_splits)
  done

declare event_loop2.simps [simp del]

definition initial_wait2 :: wait where
  "initial_wait2 = \<lparr>resolved = False, listeners = {LoadedData, VideoError}, settled = []\<rparr>"

definition initial_queue2 :: "(nat \<times> signal) list \<Rightarrow> (nat \<times> task) list" where
  "initial_queue2 events =
     foldl (\<lambda>q (time, e). enqueue (time, Dispatch e) q)
       (set_timers 0 [(3000, FallbackTimeout)] []) events"

definition waitForVideo2_run :: "browser \<Rightarrow> wait list" where
  "waitForVideo2_run h =
     event_loop2 (isMobile h) (readyState h) (initial_queue2 (video_events h)) initial_wait2"

definition waitForVideo2 :: "browser \<Rightarrow> wait" where
  "waitForVideo2 h = last (waitForVideo2_run h)"

definition try_block2 :: "browser \<Rightarrow> state \<Rightarrow> bool completion \<times> state" where
  "try_block2 h s0 =
     (let s1 = s0\<lparr>isLoading := True, error := None\<rparr>;
          accessCheck = checkCameraAccess h
      in
      if \<not> available accessCheck then
        (let errorMsg = (case access_error accessCheck of
                           Some m \<Rightarrow> if m = [] then ''Camera not available'' else m
                         | None \<Rightarrow> ''Camera not available'')
         in (Returned False,
             s1\<lparr>error := Some errorMsg,
                notifications := notifications s1 @ [ErrorOccurred errorMsg],
                hasPermission := Some False\<rparr>))
      else
        (let s2 = s1\<lparr>hasPermission := Some True\<rparr>;
             mobile = isMobile h;
             s3 = s2\<lparr>requests := requests s2 @ [constraints2 mobile]\<rparr>
         in
         case getUserMedia h 0 (constraints2 mobile) of
           Inl e \<Rightarrow> (Threw e, s3)
         | Inr stream \<Rightarrow>
             (case videoRef s3 of
                None \<Rightarrow> (Returned False, s3)
              | Some video0 \<Rightarrow>
                  (let s4 = s3\<lparr>videoRef := Some (video0\<lparr>srcObject := Some stream\<rparr>),
                              streamRef := Some stream\<rparr>
                   in
                   case promise_of (settled (waitForVideo2 h)) of
                     Pending \<Rightarrow> (Hung, s4)
                   | Rejected e \<Rightarrow> (Threw e, s4)
                   | Fulfilled \<Rightarrow>
                       (Returned True,
                        s4\<lparr>isActive := True,
                           notifications := notifications s4 @ [CameraReady True]\<rparr>)))))"

definition startCamera2 :: "browser \<Rightarrow> state \<Rightarrow> bool option \<times> state" where
  "startCamera2 h s =
     (case try_block2 h s of
        (Returned b, s') \<Rightarrow> (Some b, s'\<lparr>isLoading := False\<rparr>)
      | (Threw e, s') \<Rightarrow>
          (case catch_block e s' of (b, s'') \<Rightarrow> (Some b, s''\<lparr>isLoading := False\<rparr>))
      | (Hung, s') \<Rightarrow> (None, s'))"

definition capture2 :: "props \<Rightarrow> browser \<Rightarrow> state \<Rightarrow> nat option \<times> state" where
  "capture2 p h s =
     (case (videoRef s, canvasRef s) of
        (Some video0, Some c) \<Rightarrow>
          if \<not> isActive s then (None, s)
          else if readyState h 0 < 2 then (None, s)
          else
            (let vw = (if videoWidth h \<noteq> 0 then videoWidth h else width p);
                 vh = (if videoHeight h \<noteq> 0 then videoHeight h else height p)
             in
             if vw = 0 \<or> vh = 0 then (None, s)
             else if \<not> getContext2d h then (None, s)
             else
               (let cv = canvases s c;
                    cv1 = cv\<lparr>canvas_width := vw, bitmap := transparent\<rparr>;
                    cv2 = cv1\<lparr>canvas_height := vh, bitmap := transparent\<rparr>
                in
                case drawImage h vw vh of
                  Inl e \<Rightarrow> (None, s\<lparr>canvases := (canvases s)(c := cv2)\<rparr>)
                | Inr img \<Rightarrow>
                    (let cv3 = cv2\<lparr>bitmap := paint vw vh img (bitmap cv2)\<rparr>;
                         s' = s\<lparr>canvases := (canvases s)(c := cv3)\<rparr>;
                         imageData = getImageData (bitmap cv3) 1 1
                     in if every (\<lambda>channel index. channel = 0) imageData then (None, s')
                        else (Some c, s'))))
      | _ \<Rightarrow> (None, s))"

section \<open>Notions used to state the properties of the readiness wait\<close>

text \<open>The number of queued tasks of one kind, and the number of calls of
  \<^verbatim>\<open>resolve\<close> a wait has recorded.\<close>

definition pending :: "task \<Rightarrow> (nat \<times> task) list \<Rightarrow> nat" where
  "pending t q = length (filter (\<lambda>x. snd x = t) q)"

definition resolve_calls :: "wait \<Rightarrow> nat" where
  "resolve_calls w = length (filter (\<lambda>c. c = Resolve) (settled w))"

text \<open>Invariants of the event loop: at most one resolution is under way or done, and
  only once the flag is set; the wait will be settled, by the ultimate timeout as long as
  the flag is unset and by the stabilization timer otherwise; after the flag was set by a
  readiness signal, the promise is fulfilled.\<close>

definition once_inv :: "(nat \<times> task) list \<Rightarrow> wait \<Rightarrow> bool" where
  "once_inv q w \<longleftrightarrow>
     (resolved w \<longrightarrow> listeners w = {})
     \<and> resolve_calls w + pending StabilizationTimeout q \<le> (if resolved w then 1 else 0)"

definition settles_inv :: "(nat \<times> task) list \<Rightarrow> wait \<Rightarrow> bool" where
  "settles_inv q w \<longleftrightarrow>
     settled w \<noteq> []
     \<or> (\<not> resolved w \<and> 0 < pending UltimateTimeout q)
     \<or> (resolved w \<and> 0 < pending StabilizationTimeout q)"

definition stabilizing_inv :: "(nat \<times> task) list \<Rightarrow> wait \<Rightarrow> bool" where
  "stabilizing_inv q w \<longleftrightarrow>
     resolved w
     \<and> (if settled w = [] then 0 < pending StabilizationTimeout q
         else promise_of (settled w) = Fulfilled)"

section \<open>Notions used to state the properties of capture\<close>

text \<open>A pixel whose colour channels are all zero, whatever its alpha channel.\<close>

fun black :: "pixel \<Rightarrow> bool" where
  "black (r, g, b, a) = (r = 0 \<and> g = 0 \<and> b = 0)"

text \<open>The canvas after a successful draw of the image \<open>img\<close> at size \<open>vw \<times> vh\<close>.\<close>

definition drawn :: "nat \<Rightarrow> nat \<Rightarrow> (nat \<Rightarrow> nat \<Rightarrow> pixel) \<Rightarrow> canvas" where
  "drawn vw vh img =
     \<lparr>canvas_width = vw, canvas_height = vh,
      bitmap = paint vw vh img (clearRect vw vh transparent)\<rparr>"

section \<open>What the browser answers to the candidates\<close>

text \<open>The \<open>j\<close>-th candidate fails without a permission denial, yields a stream, or is
  denied.\<close>

definition fails_without_denial :: "browser \<Rightarrow> nat \<Rightarrow> bool" where
  "fails_without_denial h j =
     (case getUserMedia h j (constraintOptions (isMobile h) ! j) of
        Inl e \<Rightarrow> error_name e \<noteq> ''NotAllowedError''
      | Inr stream \<Rightarrow> False)"

definition yields_stream :: "browser \<Rightarrow> nat \<Rightarrow> bool" where
  "yields_stream h j =
     (case getUserMedia h j (constraintOptions (isMobile h) ! j) of
        Inl e \<Rightarrow> False
      | Inr stream \<Rightarrow> True)"

definition denies :: "browser \<Rightarrow> nat \<Rightarrow> bool" where
  "denies h j =
     (case getUserMedia h j (constraintOptions (isMobile h) ! j) of
        Inl e \<Rightarrow> error_name e = ''NotAllowedError''
      | Inr stream \<Rightarrow> False)"

section \<open>Example states and browsers\<close>

definition session_example :: state where
  "session_example =
     mounted\<lparr>isActive := True, streamRef := Some \<lparr>getTracks = [4, 7]\<rparr>,
             videoRef := Some \<lparr>srcObject = Some \<lparr>getTracks = [4, 7]\<rparr>, muted = True,
                               attributes = []\<rparr>\<rparr>"

definition notFound :: js_error where
  "notFound = \<lparr>instance_of_Error = True, error_name = ''NotFoundError'',
               error_message = ''Requested device not found''\<rparr>"

definition notAllowed :: js_error where
  "notAllowed = \<lparr>instance_of_Error = True, error_name = ''NotAllowedError'',
                 error_message = ''Permission denied''\<rparr>"

text \<open>A desktop browser on which the first two candidates find no device and the third
  yields a stream of 640 by 480 whose first frame is decoded after 120 milliseconds.\<close>

definition browser_example :: browser where
  "browser_example =
     \<lparr>checkCameraAccess = \<lparr>available = True, access_error = None\<rparr>,
      isMobile = False,
      getUserMedia = (\<lambda>i c. if i < 2 then Inl notFound else Inr \<lparr>getTracks = [1]\<rparr>),
      video_events = [(120, LoadedData), (130, CanPlay)],
      readyState = (\<lambda>t. 4),
      videoWidth = 640, videoHeight = 480, clientWidth = 320, clientHeight = 240,
      getContext2d = True,
      drawImage = (\<lambda>w h. Inr (\<lambda>x y. (200, 180, 160, 255)))\<rparr>"

definition browser_denied :: browser where
  "browser_denied =
     browser_example\<lparr>getUserMedia := (\<lambda>i c. if i < 1 then Inl notFound else Inl notAllowed)\<rparr>"

definition browser_no_camera :: browser where
  "browser_no_camera = browser_example\<lparr>getUserMedia := (\<lambda>i c. Inl notFound)\<rparr>"

definition browser_stalled :: browser where
  "browser_stalled =
     browser_example\<lparr>isMobile := True,
                     getUserMedia := (\<lambda>i c. Inr \<lparr>getTracks = [1]\<rparr>),
                     video_events := [(9000, LoadedData)],
                     readyState := (\<lambda>t. if t < 9000 then 0 else 4)\<rparr>"

definition props_default :: props where
  "props_default = \<lparr>width = 320, height = 240\<rparr>"

definition browser_black :: browser where
  "browser_black = browser_example\<lparr>drawImage := (\<lambda>w h. Inr (\<lambda>x y. (0, 0, 0, 255)))\<rparr>"

definition browser_unavailable :: browser where
  "browser_unavailable =
     browser_example\<lparr>checkCameraAccess :=
       \<lparr>available = False, access_error = Some ''Camera not available''\<rparr>\<rparr>"

definition browser_slow :: browser where
  "browser_slow = browser_example\<lparr>isMobile := True, readyState := (\<lambda>t. 1)\<rparr>"

definition browser_zero_dimensions :: browser where
  "browser_zero_dimensions = browser_example\<lparr>isMobile := True, videoWidth := 0, videoHeight := 0\<rparr>"

definition browser_second_frame :: browser where
  "browser_second_frame = browser_example\<lparr>drawImage := (\<lambda>w h. Inr (\<lambda>x y. (10, 20, 30, 255)))\<rparr>"

definition browser_silent :: browser where
  "browser_silent =
     browser_example\<lparr>getUserMedia := (\<lambda>i c. Inr \<lparr>getTracks = [1]\<rparr>),
                     video_events := [], readyState := (\<lambda>t. 0)\<rparr>"

definition browser_other :: browser where
  "browser_other = browser_example\<lparr>getUserMedia := (\<lambda>i c. Inr \<lparr>getTracks = [2]\<rparr>)\<rparr>"

section \<open>Properties of stopCamera\<close>

lemma foldl_track_stop:
  "foldl track_stop s ts = s\<lparr>stopped := stopped s \<union> set ts\<rparr>"
  by (induction ts arbitrary: s) (auto simp: track_stop_def)

text \<open>
  C8: \<^verbatim>\<open>stopCamera\<close> has no failing path (the function is total and throws nowhere)
  and can be repeated. After a call, whether or not a session existed, every track of the
  stream the component held is stopped, tracks stopped before stay stopped, no stream is
  held, the video element has no stream, and the status is inactive; a second call changes
  nothing but the callback log, to which it adds one more \<^verbatim>\<open>onCameraReady(false)\<close>.
\<close>

theorem stopCamera_idempotent:
  "(\<forall>stream. streamRef s = Some stream \<longrightarrow> set (getTracks stream) \<subseteq> stopped (stopCamera s))
   \<and> stopped s \<subseteq> stopped (stopCamera s)
   \<and> streamRef (stopCamera s) = None
   \<and> (\<forall>v. videoRef (stopCamera s) = Some v \<longrightarrow> srcObject v = None)
   \<and> isActive (stopCamera s) = False
   \<and> stopCamera (stopCamera s) =
       (stopCamera s)\<lparr>notifications := notifications (stopCamera s) @ [CameraReady False]\<rparr>"
  by (cases "streamRef s"; cases "videoRef s")
     (auto simp: stopCamera_def foldl_track_stop Let_def)

theorem stopCamera_idempotent_witness:
  "streamRef session_example = Some \<lparr>getTracks = [4, 7]\<rparr>
   \<and> {4, 7} \<subseteq> stopped (stopCamera session_example)
   \<and> streamRef (stopCamera session_example) = None
   \<and> videoRef (stopCamera session_example)
       = Some \<lparr>srcObject = None, muted = True, attributes = []\<rparr>
   \<and> isActive (stopCamera (stopCamera session_example)) = False
   \<and> streamRef mounted = None \<and> isActive (stopCamera mounted) = False
   \<and> stopped (stopCamera (stopCamera session_example)) = {4, 7}"
  using stopCamera_idempotent [of session_example] stopCamera_idempotent [of mounted]
  by (auto simp: session_example_def mounted_def stopCamera_def track_stop_def Let_def)

section \<open>Properties of the constraint ladder\<close>

text \<open>What a run of the loop from index \<open>i\<close> does: it makes the requests \<open>i, \<dots>, k - 1\<close> in
  order, all but the last of them fail without a permission denial, and the last one
  decides how the loop is left.\<close>

lemma tryOptions_spec:
  "tryOptions gum opts i le s = (r, s') \<Longrightarrow> i \<le> length opts \<Longrightarrow>
   \<exists>k. i \<le> k \<and> k \<le> length opts
     \<and> s' = s\<lparr>requests := requests s @ take (k - i) (drop i opts)\<rparr>
     \<and> (\<forall>j. i \<le> j \<and> j + 1 < k \<longrightarrow>
            (\<exists>e. gum j (opts ! j) = Inl e \<and> error_name e \<noteq> ''NotAllowedError''))
     \<and> (case r of
          Inl e \<Rightarrow> i < k \<and> gum (k - 1) (opts ! (k - 1)) = Inl e
                    \<and> error_name e = ''NotAllowedError''
        | Inr (Some stream, le') \<Rightarrow> i < k \<and> gum (k - 1) (opts ! (k - 1)) = Inr stream
        | Inr (None, le') \<Rightarrow>
            k = length opts
            \<and> (if i < k
                then \<exists>e. gum (k - 1) (opts ! (k - 1)) = Inl e
                         \<and> error_name e \<noteq> ''NotAllowedError'' \<and> le' = Some e
                else le' = le))"
proof (induction gum opts i le s arbitrary: r s' rule: tryOptions.induct)
  case (1 gum opts i lastError s)
  show ?case
  proof (cases "i < length opts")
    case False
    with 1(2,3) show ?thesis
      by (auto simp: tryOptions.simps)
  next
    case True
    let ?s = "s\<lparr>requests := requests s @ [opts ! i]\<rparr>"
    show ?thesis
    proof (cases "gum i (opts ! i)")
      case (Inr stream)
      with True 1(2) have "r = Inr (Some stream, lastError)" "s' = ?s"
        by (auto simp: tryOptions.simps [of gum opts i] Let_def)
      with True Inr show ?thesis
        by (intro exI [of _ "i + 1"]) (auto simp: take_Suc_conv_app_nth hd_drop_conv_nth take_Suc)
    next
      case (Inl e)
      show ?thesis
      proof (cases "error_name e = ''NotAllowedError''")
        case True
        with \<open>i < length opts\<close> Inl 1(2) have "r = Inl e" "s' = ?s"
          by (auto simp: tryOptions.simps [of gum opts i] Let_def)
        with True \<open>i < length opts\<close> Inl show ?thesis
          by (intro exI [of _ "i + 1"]) (auto simp: hd_drop_conv_nth take_Suc)
      next
        case False
        with \<open>i < length opts\<close> Inl 1(2)
        have rec: "tryOptions gum opts (i + 1) (Some e) ?s = (r, s')"
          by (auto simp: tryOptions.simps [of gum opts i] Let_def)
        from 1(1) [OF \<open>i < length opts\<close> refl Inl False rec] \<open>i < length opts\<close>
        obtain k where k: "i + 1 \<le> k" "k \<le> length opts"
          "s' = ?s\<lparr>requests := requests ?s @ take (k - (i + 1)) (drop (i + 1) opts)\<rparr>"
          "\<forall>j. i + 1 \<le> j \<and> j + 1 < k \<longrightarrow>
            (\<exists>e. gum j (opts ! j) = Inl e \<and> error_name e \<noteq> ''NotAllowedError'')"
          "(case r of
          Inl e \<Rightarrow> i + 1 < k \<and> gum (k - 1) (opts ! (k - 1)) = Inl e
                    \<and> error_name e = ''NotAllowedError''
        | Inr (Some stream, le') \<Rightarrow> i + 1 < k \<and> gum (k - 1) (opts ! (k - 1)) = Inr stream
        | Inr (None, le') \<Rightarrow>
            k = length opts
            \<and> (if i + 1 < k
                then \<exists>e. gum (k - 1) (opts ! (k - 1)) = Inl e
                         \<and> error_name e \<noteq> ''NotAllowedError'' \<and> le' = Some e
                else le' = Some e))"
          by auto
        have tk: "[opts ! i] @ take (k - (i + 1)) (drop (i + 1) opts) = take (k - i) (drop i opts)"
          using k(1,2) \<open>i < length opts\<close>
          by (metis Cons_nth_drop_Suc Suc_diff_Suc Suc_eq_plus1 Suc_le_lessD append_Cons append_Nil take_Suc_Cons)
        have fj: "\<forall>j. i \<le> j \<and> j + 1 < k \<longrightarrow>
            (\<exists>e. gum j (opts ! j) = Inl e \<and> error_name e \<noteq> ''NotAllowedError'')"
          using k(4) Inl False by (metis Suc_eq_plus1 Suc_leI le_neq_implies_less)
        show ?thesis
          apply (rule exI [of _ k])
          using k(1,2,3,5) tk fj Inl False \<open>i < length opts\<close>
          apply (auto split: sum.splits option.splits prod.splits if_splits)
          apply (subgoal_tac "k - Suc 0 = i"; simp)
          done
      qed
    qed
  qed
qed

section \<open>Properties of the readiness wait\<close>

lemma run_task_cases:
  assumes "run_task mobile rs t w = (w', timers)"
  shows "(w' = w \<and> timers = [] \<and> t \<noteq> StabilizationTimeout
        \<and> (t = UltimateTimeout \<longrightarrow> resolved w))
    \<or> (\<not> resolved w \<and> mobile \<and> t \<noteq> UltimateTimeout \<and> t \<noteq> StabilizationTimeout
        \<and> t \<noteq> Dispatch VideoError
        \<and> w' = removeListeners (w\<lparr>resolved := True\<rparr>)
        \<and> timers = [(1000, StabilizationTimeout)])
    \<or> (\<not> resolved w \<and> \<not> mobile \<and> t \<noteq> UltimateTimeout \<and> t \<noteq> StabilizationTimeout
        \<and> t \<noteq> Dispatch VideoError
        \<and> w' = (removeListeners (w\<lparr>resolved := True\<rparr>))\<lparr>settled := settled w @ [Resolve]\<rparr>
        \<and> timers = [])
    \<or> (\<not> resolved w \<and> t = Dispatch VideoError
        \<and> w' = (removeListeners (w\<lparr>resolved := True\<rparr>))
                  \<lparr>settled := settled w @ [Reject (new_Error ''Video failed to load'')]\<rparr>
        \<and> timers = [])
    \<or> (\<not> resolved w \<and> t = UltimateTimeout
        \<and> w' = w\<lparr>settled := settled w @ [Reject (new_Error (not_ready_message mobile))]\<rparr>
        \<and> timers = [])
    \<or> (t = StabilizationTimeout \<and> w' = w\<lparr>settled := settled w @ [Resolve]\<rparr> \<and> timers = [])"
proof (cases t)
  case (Dispatch e)
  with assms show ?thesis
    by (cases e)
       (auto simp: onLoadedData_def onCanPlay_def onVideoError_def removeListeners_def Let_def
             split: if_splits)
next
  case FallbackTimeout
  with assms show ?thesis
    by (auto simp: onLoadedData_def removeListeners_def Let_def split: if_splits)
next
  case UltimateTimeout
  with assms show ?thesis
    by (auto split: if_splits)
next
  case StabilizationTimeout
  with assms show ?thesis
    by auto
qed

lemma event_loop_nonempty: "event_loop mobile rs q w \<noteq> []"
  by (cases "(mobile, rs, q, w)" rule: event_loop.cases)
     (auto simp: event_loop.simps split: prod.splits)

lemma event_loop_invariant:
  "\<forall>now t q w w' timers.
      I ((now, t) # q) w \<and> run_task mobile (rs now) t w = (w', timers) \<longrightarrow>
      I (set_timers now timers q) w' \<Longrightarrow> I q w \<Longrightarrow>
   (\<forall>w' \<in> set (event_loop mobile rs q w). \<exists>q'. I q' w')
     \<and> I [] (last (event_loop mobile rs q w))"
proof (induction mobile rs q w rule: event_loop.induct)
  case (1 mobile rs w)
  then show ?case by (auto simp: event_loop.simps)
next
  case (2 mobile rs now t q w)
  obtain w' timers where rt: "run_task mobile (rs now) t w = (w', timers)"
    by (cases "run_task mobile (rs now) t w")
  have "I (set_timers now timers q) w'"
    using "2.prems" rt by blast
  from "2.IH" [OF rt [symmetric] "2.prems"(1) this]
  have "(\<forall>w'' \<in> set (event_loop mobile rs (set_timers now timers q) w'). \<exists>q'. I q' w'')
     \<and> I [] (last (event_loop mobile rs (set_timers now timers q) w'))" .
  with "2.prems"(2) rt show ?case
    by (auto simp: event_loop_nonempty event_loop.simps)
qed

lemma pending_Nil [simp]: "pending t [] = 0"
  by (simp add: pending_def)

lemma pending_Cons [simp]: "pending t (x # q) = (if snd x = t then 1 else 0) + pending t q"
  by (simp add: pending_def)

lemma pending_enqueue [simp]:
  "pending t (enqueue x q) = (if snd x = t then 1 else 0) + pending t q"
  by (induction q) auto

lemma pending_set_timers [simp]:
  "pending t (set_timers now timers q) = pending t q + pending t timers"
  by (induction timers arbitrary: q) (auto simp: set_timers_def)

lemma pending_events:
  "(\<And>e. t \<noteq> Dispatch e) \<Longrightarrow>
   pending t (foldl (\<lambda>q (time, e). enqueue (time, Dispatch e) q) q0 events) = pending t q0"
  by (induction events arbitrary: q0) (auto split: prod.splits)

lemma pending_initial_queue [simp]:
  "pending StabilizationTimeout (initial_queue mobile events) = 0"
  "pending UltimateTimeout (initial_queue mobile events) = 1"
  by (simp_all add: initial_queue_def pending_events)

lemma signal_UNIV: "listeners w - {LoadedData} - {CanPlay} - {VideoError} = {}"
proof -
  have "x \<in> {LoadedData, CanPlay, VideoError}" for x :: signal
    by (cases x) auto
  then show ?thesis by auto
qed

lemma once_inv_step:
  "once_inv ((now, t) # q) w \<Longrightarrow> run_task mobile rs t w = (w', timers) \<Longrightarrow>
   once_inv (set_timers now timers q) w'"
  by (drule run_task_cases)
     (auto simp: once_inv_def resolve_calls_def removeListeners_def signal_UNIV split: if_splits)

lemma settles_inv_step:
  "settles_inv ((now, t) # q) w \<Longrightarrow> run_task mobile rs t w = (w', timers) \<Longrightarrow>
   settles_inv (set_timers now timers q) w'"
  by (drule run_task_cases)
     (auto simp: settles_inv_def removeListeners_def split: if_splits)

lemma waitForVideo_once:
  assumes "w \<in> set (waitForVideo_run h)"
  shows "resolve_calls w \<le> 1 \<and> (resolved w \<longrightarrow> listeners w = {})
   \<and> (0 < resolve_calls w \<longrightarrow> resolved w)"
proof -
  have init: "once_inv (initial_queue (isMobile h) (video_events h)) initial_wait"
    by (simp add: once_inv_def initial_wait_def resolve_calls_def)
  have step: "\<forall>now t q w w' timers.
      once_inv ((now, t) # q) w \<and> run_task (isMobile h) (readyState h now) t w = (w', timers) \<longrightarrow>
      once_inv (set_timers now timers q) w'"
    using once_inv_step by blast
  from event_loop_invariant [OF step init] assms
  obtain q' where "once_inv q' w"
    unfolding waitForVideo_run_def by blast
  then show ?thesis
    by (auto simp: once_inv_def split: if_splits)
qed

lemma waitForVideo_settles: "settled (waitForVideo h) \<noteq> []"
proof -
  have init: "settles_inv (initial_queue (isMobile h) (video_events h)) initial_wait"
    by (simp add: settles_inv_def initial_wait_def)
  have step: "\<forall>now t q w w' timers.
      settles_inv ((now, t) # q) w \<and> run_task (isMobile h) (readyState h now) t w = (w', timers) \<longrightarrow>
      settles_inv (set_timers now timers q) w'"
    using settles_inv_step by blast
  from event_loop_invariant [OF step init]
  have "settles_inv [] (waitForVideo h)"
    by (simp add: waitForVideo_def waitForVideo_run_def)
  then show ?thesis
    by (simp add: settles_inv_def)
qed

lemma last_event_loop_Cons:
  "run_task mobile (rs now) t w = (w', timers) \<Longrightarrow>
   last (event_loop mobile rs ((now, t) # q) w)
     = last (event_loop mobile rs (set_timers now timers q) w')"
  by (simp add: event_loop_nonempty event_loop.simps)

lemma settled_grows:
  "\<exists>ys. settled (last (event_loop mobile rs q w)) = settled w @ ys"
proof -
  let ?I = "\<lambda>(q :: (nat \<times> task) list) w'. \<exists>ys. settled w' = settled w @ ys"
  have init: "?I q w"
    by simp
  have step: "\<forall>now t q w' w'' timers.
      ?I ((now, t) # q) w' \<and> run_task mobile (rs now) t w' = (w'', timers) \<longrightarrow>
      ?I (set_timers now timers q) w''"
    by (auto dest!: run_task_cases simp: removeListeners_def)
  from event_loop_invariant [of ?I, OF step init] show ?thesis
    by blast
qed

lemma promise_of_append: "xs \<noteq> [] \<Longrightarrow> promise_of (xs @ ys) = promise_of xs"
  by (cases xs rule: promise_of.cases) auto

lemma promise_of_last_event_loop:
  "settled w \<noteq> [] \<Longrightarrow>
   promise_of (settled (last (event_loop mobile rs q w))) = promise_of (settled w)"
  using settled_grows [of mobile rs q w] by (auto simp: promise_of_append)

lemma enqueue_events_prefix:
  "\<forall>(time, e) \<in> set events. fst b \<le> time \<Longrightarrow> fst a \<le> fst b \<Longrightarrow>
   \<exists>r. foldl (\<lambda>q (time, e). enqueue (time, Dispatch e) q) (a # b # r0) events = a # b # r"
  by (induction events arbitrary: r0) (auto split: prod.splits)

lemma enqueue_events_prefix1:
  "\<forall>(time, e) \<in> set events. fst a \<le> time \<Longrightarrow>
   \<exists>r. foldl (\<lambda>q (time, e). enqueue (time, Dispatch e) q) (a # r0) events = a # r"
  by (induction events arbitrary: r0) (auto split: prod.splits)

lemma waitForVideo_ultimate:
  assumes "\<forall>(time, e) \<in> set (video_events h). ultimate_delay (isMobile h) \<le> time"
    and "readyState h (fallback_delay (isMobile h)) < 2"
  shows "promise_of (settled (waitForVideo h))
           = Rejected (new_Error (not_ready_message (isMobile h)))"
proof -
  let ?m = "isMobile h"
  have "\<exists>r. initial_queue ?m (video_events h)
            = (fallback_delay ?m, FallbackTimeout) # (ultimate_delay ?m, UltimateTimeout) # r"
    unfolding initial_queue_def set_timers_def
    using enqueue_events_prefix [of "video_events h" "(ultimate_delay ?m, UltimateTimeout)"
        "(fallback_delay ?m, FallbackTimeout)" "[]"] assms(1)
    by (auto simp: fallback_delay_def ultimate_delay_def)
  then obtain r where q: "initial_queue ?m (video_events h)
      = (fallback_delay ?m, FallbackTimeout) # (ultimate_delay ?m, UltimateTimeout) # r"
    by blast
  have 1: "run_task ?m (readyState h (fallback_delay ?m)) FallbackTimeout initial_wait
             = (initial_wait, [])"
    using assms(2) by simp
  have 2: "run_task ?m (readyState h (ultimate_delay ?m)) UltimateTimeout initial_wait
             = (initial_wait\<lparr>settled := [Reject (new_Error (not_ready_message ?m))]\<rparr>, [])"
    by (simp add: initial_wait_def)
  show ?thesis
    unfolding waitForVideo_def waitForVideo_run_def q
    by (simp add: last_event_loop_Cons [where rs = "readyState h", OF 1]
          last_event_loop_Cons [where rs = "readyState h", OF 2] set_timers_def
          promise_of_last_event_loop)
qed

lemma stabilizing_inv_step:
  "stabilizing_inv ((now, t) # q) w \<Longrightarrow> run_task mobile rs t w = (w', timers) \<Longrightarrow>
   stabilizing_inv (set_timers now timers q) w'"
  by (drule run_task_cases)
     (auto simp: stabilizing_inv_def promise_of_append split: if_splits)

lemma waitForVideo_fallback:
  assumes "\<forall>(time, e) \<in> set (video_events h). fallback_delay (isMobile h) \<le> time"
    and "2 \<le> readyState h (fallback_delay (isMobile h))"
  shows "promise_of (settled (waitForVideo h)) = Fulfilled"
proof -
  let ?m = "isMobile h"
  let ?F = "fallback_delay ?m"
  have "\<exists>r. initial_queue ?m (video_events h) = (?F, FallbackTimeout) # r"
    unfolding initial_queue_def set_timers_def
    using enqueue_events_prefix1 [of "video_events h" "(?F, FallbackTimeout)"
        "[(ultimate_delay ?m, UltimateTimeout)]"] assms(1)
    by (auto simp: fallback_delay_def ultimate_delay_def)
  then obtain r where q: "initial_queue ?m (video_events h) = (?F, FallbackTimeout) # r"
    by blast
  obtain w' timers where rt: "run_task ?m (readyState h ?F) FallbackTimeout initial_wait = (w', timers)"
    by (cases "run_task ?m (readyState h ?F) FallbackTimeout initial_wait")
  with assms(2) have init: "stabilizing_inv (set_timers ?F timers r) w'"
    by (auto simp: stabilizing_inv_def initial_wait_def onLoadedData_def removeListeners_def
          Let_def split: if_splits)
  have step: "\<forall>now t q w w' timers.
      stabilizing_inv ((now, t) # q) w \<and> run_task ?m (readyState h now) t w = (w', timers) \<longrightarrow>
      stabilizing_inv (set_timers now timers q) w'"
    using stabilizing_inv_step by blast
  from event_loop_invariant [OF step init]
  have "stabilizing_inv [] (last (event_loop ?m (readyState h) (set_timers ?F timers r) w'))"
    by blast
  then show ?thesis
    unfolding waitForVideo_def waitForVideo_run_def q
    by (simp add: last_event_loop_Cons [where rs = "readyState h", OF rt] stabilizing_inv_def split: if_splits)
qed

section \<open>Properties of startCamera\<close>

lemma ladder_run:
  assumes "tryOptions gum opts 0 None s = (r, s')" and "opts \<noteq> []"
  shows "\<exists>k. 1 \<le> k \<and> k \<le> length opts
     \<and> s' = s\<lparr>requests := requests s @ take k opts\<rparr>
     \<and> (\<forall>j < k - 1. \<exists>e. gum j (opts ! j) = Inl e \<and> error_name e \<noteq> ''NotAllowedError'')
     \<and> (case r of
          Inl e \<Rightarrow> gum (k - 1) (opts ! (k - 1)) = Inl e \<and> error_name e = ''NotAllowedError''
        | Inr (Some stream, le') \<Rightarrow> gum (k - 1) (opts ! (k - 1)) = Inr stream
        | Inr (None, le') \<Rightarrow>
            k = length opts
            \<and> (\<exists>e. gum (k - 1) (opts ! (k - 1)) = Inl e
                   \<and> error_name e \<noteq> ''NotAllowedError'' \<and> le' = Some e))"
proof -
  from tryOptions_spec [OF assms(1)] obtain k where k: "k \<le> length opts"
     "s' = s\<lparr>requests := requests s @ take (k - 0) (drop 0 opts)\<rparr>"
     "\<forall>j. 0 \<le> j \<and> j + 1 < k \<longrightarrow>
            (\<exists>e. gum j (opts ! j) = Inl e \<and> error_name e \<noteq> ''NotAllowedError'')"
     "(case r of
          Inl e \<Rightarrow> 0 < k \<and> gum (k - 1) (opts ! (k - 1)) = Inl e
                    \<and> error_name e = ''NotAllowedError''
        | Inr (Some stream, le') \<Rightarrow> 0 < k \<and> gum (k - 1) (opts ! (k - 1)) = Inr stream
        | Inr (None, le') \<Rightarrow>
            k = length opts
            \<and> (if 0 < k
                then \<exists>e. gum (k - 1) (opts ! (k - 1)) = Inl e
                         \<and> error_name e \<noteq> ''NotAllowedError'' \<and> le' = Some e
                else le' = None))"
    by auto
  have "0 < length opts"
    using assms(2) by simp
  then have "1 \<le> k"
    using k(4) by (auto simp: Suc_le_eq split: sum.splits option.splits prod.splits)
  moreover have "\<forall>j < k - 1. \<exists>e. gum j (opts ! j) = Inl e \<and> error_name e \<noteq> ''NotAllowedError''"
    using k(3) by (simp add: less_diff_conv)
  ultimately show ?thesis
    using k(1,2,4) assms(2)
    by (intro exI [of _ k]) (auto split: sum.splits option.splits prod.splits)
qed

lemma constraintOptions_nonempty: "constraintOptions mobile \<noteq> []"
  by (simp add: constraintOptions_def)

lemma requests_bind_and_wait: "requests (snd (bind_and_wait h stream v s)) = requests s"
  by (simp add: bind_and_wait_def Let_def split: promise.splits)

lemma try_block_requests:
  assumes "available (checkCameraAccess h)"
  shows "requests (snd (try_block h s))
       = requests (snd (tryOptions (getUserMedia h) (constraintOptions (isMobile h)) 0 None
                          (ladder_start s)))"
  using assms
  by (auto simp: try_block_def Let_def ladder_start_def requests_bind_and_wait
           split: sum.splits option.splits prod.splits)

lemma startCamera_requests:
  "requests (snd (startCamera h s)) = requests (snd (try_block h s))"
  by (auto simp: startCamera_def catch_block_def Let_def split: prod.splits completion.splits)

lemma tryOptions_skip:
  "i \<le> k \<Longrightarrow> k \<le> length opts \<Longrightarrow>
   \<forall>j. i \<le> j \<and> j < k \<longrightarrow> gum j (opts ! j) = Inl (es j) \<and> error_name (es j) \<noteq> ''NotAllowedError'' \<Longrightarrow>
   tryOptions gum opts i le s
     = tryOptions gum opts k (if i = k then le else Some (es (k - 1)))
         (s\<lparr>requests := requests s @ take (k - i) (drop i opts)\<rparr>)"
proof (induction k)
  case 0
  then show ?case by simp
next
  case (Suc k)
  show ?case
  proof (cases "i = Suc k")
    case True
    then show ?thesis by simp
  next
    case False
    with Suc.prems have ik: "i \<le> k" "k < length opts"
      by auto
    have tk: "take (Suc k - i) (drop i opts) = take (k - i) (drop i opts) @ [opts ! k]"
      using ik by (simp add: Suc_diff_le take_Suc_conv_app_nth)
    have "tryOptions gum opts i le s
        = tryOptions gum opts k (if i = k then le else Some (es (k - 1)))
            (s\<lparr>requests := requests s @ take (k - i) (drop i opts)\<rparr>)"
      using Suc.IH [OF ik(1)] ik(2) Suc.prems(3) by simp
    also have "\<dots> = tryOptions gum opts (Suc k) (Some (es k))
            (s\<lparr>requests := requests s @ take (Suc k - i) (drop i opts)\<rparr>)"
      using ik Suc.prems(3) by (subst tryOptions.simps) (simp add: tk)
    finally show ?thesis
      using False by simp
  qed
qed

lemma ladder_prefix:
  assumes "k < length (constraintOptions (isMobile h))"
    and "\<forall>i < k. fails_without_denial h i"
  shows "tryOptions (getUserMedia h) (constraintOptions (isMobile h)) 0 None s
     = tryOptions (getUserMedia h) (constraintOptions (isMobile h)) k
         (if k = 0 then None
          else Some (projl (getUserMedia h (k - 1) (constraintOptions (isMobile h) ! (k - 1)))))
         (s\<lparr>requests := requests s @ take k (constraintOptions (isMobile h))\<rparr>)"
proof -
  let ?es = "\<lambda>j. projl (getUserMedia h j (constraintOptions (isMobile h) ! j))"
  have "\<forall>j. 0 \<le> j \<and> j < k \<longrightarrow>
          getUserMedia h j (constraintOptions (isMobile h) ! j) = Inl (?es j)
          \<and> error_name (?es j) \<noteq> ''NotAllowedError''"
  proof (intro allI impI)
    fix j
    assume "0 \<le> j \<and> j < k"
    then have "fails_without_denial h j"
      using assms(2) by simp
    then show "getUserMedia h j (constraintOptions (isMobile h) ! j) = Inl (?es j)
          \<and> error_name (?es j) \<noteq> ''NotAllowedError''"
      by (cases "getUserMedia h j (constraintOptions (isMobile h) ! j)")
         (auto simp: fails_without_denial_def)
  qed
  from tryOptions_skip [of 0 k "constraintOptions (isMobile h)" "getUserMedia h" ?es None s, OF _ _ this]
    assms(1)
  show ?thesis
    by (cases "k = 0") auto
qed

lemma ladder_stops:
  assumes "k < length (constraintOptions (isMobile h))"
    and "\<forall>i < k. fails_without_denial h i"
    and "\<not> fails_without_denial h k"
  shows "requests (snd (tryOptions (getUserMedia h) (constraintOptions (isMobile h)) 0 None s))
     = requests s @ take (Suc k) (constraintOptions (isMobile h))"
  unfolding ladder_prefix [OF assms(1,2)]
  using assms(1,3)
  by (subst tryOptions.simps)
     (auto simp: fails_without_denial_def take_Suc_conv_app_nth Let_def split: sum.splits)

text \<open>
  C1: when the permission probe succeeds, the requests \<^verbatim>\<open>startCamera\<close> makes are the
  first \<open>k\<close> candidates of the fixed list, in the order of the list, for some \<open>k\<close> between 1
  and 4; every request but the last failed without a permission denial, and when fewer than
  four were made the last one yielded a stream or was denied. So when candidate \<open>j\<close> is the
  first to yield a stream, exactly the candidates \<open>0, \<dots>, j\<close> are requested and none after
  it. The list runs from the exact front camera with ranges down to any video source.
\<close>

theorem startCamera_ladder_order:
  assumes "available (checkCameraAccess h)"
  shows "(\<exists>k. 1 \<le> k \<and> k \<le> length (constraintOptions (isMobile h))
       \<and> requests (snd (startCamera h s)) = requests s @ take k (constraintOptions (isMobile h))
       \<and> (\<forall>j < k - 1. fails_without_denial h j)
       \<and> (k < length (constraintOptions (isMobile h)) \<longrightarrow>
            yields_stream h (k - 1) \<or> denies h (k - 1)))
    \<and> (\<forall>j < length (constraintOptions (isMobile h)).
          yields_stream h j \<and> (\<forall>i < j. fails_without_denial h i) \<longrightarrow>
          requests (snd (startCamera h s))
            = requests s @ take (Suc j) (constraintOptions (isMobile h)))
    \<and> map video (constraintOptions (isMobile h))
        = [VideoWith (Exact ''user'') (Some \<lparr>ideal = 640, minimum = 320\<rparr>)
             (Some \<lparr>ideal = 480, minimum = 240\<rparr>) (Some \<lparr>ideal = 30, minimum = 15\<rparr>),
           VideoWith (Plain ''user'') (Some \<lparr>ideal = 480, minimum = 240\<rparr>)
             (Some \<lparr>ideal = 360, minimum = 180\<rparr>) (Some \<lparr>ideal = 24, minimum = 10\<rparr>),
           VideoWith (Plain ''user'') None None None,
           VideoTrue]"
proof (intro conjI allI impI)
  let ?opts = "constraintOptions (isMobile h)"
  obtain r s' where t: "tryOptions (getUserMedia h) ?opts 0 None (ladder_start s) = (r, s')"
    by (cases "tryOptions (getUserMedia h) ?opts 0 None (ladder_start s)")
  from ladder_run [OF t constraintOptions_nonempty] obtain k where k: "1 \<le> k" "k \<le> length ?opts"
    "s' = (ladder_start s)\<lparr>requests := requests (ladder_start s) @ take k ?opts\<rparr>"
    "\<forall>j < k - 1. \<exists>e. getUserMedia h j (?opts ! j) = Inl e \<and> error_name e \<noteq> ''NotAllowedError''"
    "(case r of
          Inl e \<Rightarrow> getUserMedia h (k - 1) (?opts ! (k - 1)) = Inl e \<and> error_name e = ''NotAllowedError''
        | Inr (Some stream, le') \<Rightarrow> getUserMedia h (k - 1) (?opts ! (k - 1)) = Inr stream
        | Inr (None, le') \<Rightarrow>
            k = length ?opts
            \<and> (\<exists>e. getUserMedia h (k - 1) (?opts ! (k - 1)) = Inl e
                   \<and> error_name e \<noteq> ''NotAllowedError'' \<and> le' = Some e))"
    by blast
  have "requests (snd (startCamera h s)) = requests s @ take k ?opts"
    using t k(3) by (simp add: startCamera_requests try_block_requests [OF assms] ladder_start_def)
  moreover have "\<forall>j < k - 1. fails_without_denial h j"
    using k(4) by (auto simp: fails_without_denial_def)
  moreover have "k < length ?opts \<longrightarrow> yields_stream h (k - 1) \<or> denies h (k - 1)"
    using k(5) by (auto simp: yields_stream_def denies_def split: sum.splits option.splits prod.splits)
  ultimately show "\<exists>k. 1 \<le> k \<and> k \<le> length ?opts
       \<and> requests (snd (startCamera h s)) = requests s @ take k ?opts
       \<and> (\<forall>j < k - 1. fails_without_denial h j)
       \<and> (k < length ?opts \<longrightarrow> yields_stream h (k - 1) \<or> denies h (k - 1))"
    using k(1,2) by blast
next
  fix j
  assume j: "j < length (constraintOptions (isMobile h))"
    "yields_stream h j \<and> (\<forall>i < j. fails_without_denial h i)"
  then have "\<not> fails_without_denial h j"
    by (auto simp: yields_stream_def fails_without_denial_def split: sum.splits)
  from ladder_stops [OF j(1) _ this, of "ladder_start s"] j(2)
  show "requests (snd (startCamera h s)) = requests s @ take (Suc j) (constraintOptions (isMobile h))"
    by (simp add: startCamera_requests try_block_requests [OF assms] ladder_start_def)
next
  show "map video (constraintOptions (isMobile h))
        = [VideoWith (Exact ''user'') (Some \<lparr>ideal = 640, minimum = 320\<rparr>)
             (Some \<lparr>ideal = 480, minimum = 240\<rparr>) (Some \<lparr>ideal = 30, minimum = 15\<rparr>),
           VideoWith (Plain ''user'') (Some \<lparr>ideal = 480, minimum = 240\<rparr>)
             (Some \<lparr>ideal = 360, minimum = 180\<rparr>) (Some \<lparr>ideal = 24, minimum = 10\<rparr>),
           VideoWith (Plain ''user'') None None None,
           VideoTrue]"
    by (simp add: constraintOptions_def)
qed

theorem startCamera_ladder_order_witness:
  "available (checkCameraAccess browser_example)
   \<and> yields_stream browser_example 2
   \<and> requests (snd (startCamera browser_example mounted))
       = [\<lparr>video = VideoWith (Exact ''user'') (Some \<lparr>ideal = 640, minimum = 320\<rparr>)
             (Some \<lparr>ideal = 480, minimum = 240\<rparr>) (Some \<lparr>ideal = 30, minimum = 15\<rparr>),
           audio = False\<rparr>,
          \<lparr>video = VideoWith (Plain ''user'') (Some \<lparr>ideal = 480, minimum = 240\<rparr>)
             (Some \<lparr>ideal = 360, minimum = 180\<rparr>) (Some \<lparr>ideal = 24, minimum = 10\<rparr>),
           audio = False\<rparr>,
          \<lparr>video = VideoWith (Plain ''user'') None None None, audio = False\<rparr>]"
proof -
  have a: "available (checkCameraAccess browser_example)"
    by (simp add: browser_example_def)
  have y: "yields_stream browser_example 2"
    by (simp add: yields_stream_def browser_example_def)
  have f: "\<forall>i < 2. fails_without_denial browser_example i"
    by (simp add: fails_without_denial_def browser_example_def notFound_def)
  have l: "2 < length (constraintOptions (isMobile browser_example))"
    by (simp add: constraintOptions_def)
  from startCamera_ladder_order [OF a, of mounted, THEN conjunct2, THEN conjunct1, rule_format, OF l]
    y f
  have "requests (snd (startCamera browser_example mounted))
      = requests mounted @ take (Suc 2) (constraintOptions (isMobile browser_example))"
    by blast
  then show ?thesis
    using a y by (simp add: mounted_def constraintOptions_def browser_example_def)
qed

lemma startCamera_thrown:
  "try_block h s = (Threw e, s') \<Longrightarrow>
   startCamera h s =
     (Some False,
      s'\<lparr>error := Some (errorMessageFor e),
         notifications := notifications s' @ [ErrorOccurred (errorMessageFor e)],
         hasPermission := Some False, isLoading := False\<rparr>)"
  by (simp add: startCamera_def catch_block_def Let_def)

lemma try_block_tryOptions:
  assumes "available (checkCameraAccess h)"
    and "tryOptions (getUserMedia h) (constraintOptions (isMobile h)) 0 None (ladder_start s) = (r, s3)"
  shows "try_block h s =
     (case r of
        Inl e \<Rightarrow> (Threw e, s3)
      | Inr (None, lastError) \<Rightarrow>
          (Threw (case lastError of Some e \<Rightarrow> e
                  | None \<Rightarrow> new_Error ''Failed to access any camera configuration''), s3)
      | Inr (Some stream, lastError) \<Rightarrow>
          (case videoRef s3 of
             None \<Rightarrow> (Returned False, s3)
           | Some video0 \<Rightarrow> bind_and_wait h stream video0 s3))"
  using assms
  by (simp add: try_block_def Let_def ladder_start_def split: sum.splits option.splits prod.splits)

lemma try_block_denied:
  assumes "available (checkCameraAccess h)"
    and "k < length (constraintOptions (isMobile h))"
    and "\<forall>i < k. fails_without_denial h i"
    and "getUserMedia h k (constraintOptions (isMobile h) ! k) = Inl e"
    and "error_name e = ''NotAllowedError''"
  shows "try_block h s =
     (Threw e, (ladder_start s)\<lparr>requests := requests s @ take (Suc k) (constraintOptions (isMobile h))\<rparr>)"
proof -
  have "tryOptions (getUserMedia h) (constraintOptions (isMobile h)) 0 None (ladder_start s)
      = (Inl e, (ladder_start s)\<lparr>requests := requests s @ take (Suc k) (constraintOptions (isMobile h))\<rparr>)"
    unfolding ladder_prefix [OF assms(2,3)]
    using assms(2,4,5)
    by (subst tryOptions.simps) (simp add: take_Suc_conv_app_nth ladder_start_def)
  from try_block_tryOptions [OF assms(1) this] show ?thesis
    by simp
qed

lemma try_block_exhausted:
  assumes "available (checkCameraAccess h)"
    and "\<forall>i < 3. fails_without_denial h i"
    and "getUserMedia h 3 (constraintOptions (isMobile h) ! 3) = Inl e"
    and "error_name e \<noteq> ''NotAllowedError''"
  shows "try_block h s =
     (Threw e, (ladder_start s)\<lparr>requests := requests s @ constraintOptions (isMobile h)\<rparr>)"
proof -
  have l: "3 < length (constraintOptions (isMobile h))"
    by (simp add: constraintOptions_def)
  have t: "take 3 (constraintOptions (isMobile h)) @ [constraintOptions (isMobile h) ! 3]
             = constraintOptions (isMobile h)"
    by (simp add: constraintOptions_def)
  have n: "\<not> 3 + 1 < length (constraintOptions (isMobile h))"
    by (simp add: constraintOptions_def)
  have "tryOptions (getUserMedia h) (constraintOptions (isMobile h)) 0 None (ladder_start s)
      = (Inr (None, Some e), (ladder_start s)\<lparr>requests := requests s @ constraintOptions (isMobile h)\<rparr>)"
    unfolding ladder_prefix [OF l assms(2)]
    using l assms(3,4) n
    apply (subst tryOptions.simps)
    apply (simp add: Let_def)
    apply (subst tryOptions.simps)
    apply (simp add: ladder_start_def t)
    done
  from try_block_tryOptions [OF assms(1) this] show ?thesis
    by simp
qed

text \<open>
  C2: let the permission probe succeed. If candidate \<open>k\<close> is rejected with
  \<^verbatim>\<open>NotAllowedError\<close> after the candidates before it failed in other ways,
  \<^verbatim>\<open>startCamera\<close> makes no further request, surfaces the message of that rejection (as
  the error state and through \<^verbatim>\<open>onError\<close>) and returns false. If all four candidates
  fail without a permission denial, it surfaces the message of the last failure and returns
  false. The message of a failure is fixed by its category: permission denied, no device
  found, device not readable, otherwise the failure's own message or, when that is empty or
  the value thrown is no \<^verbatim>\<open>Error\<close>, the generic one.
\<close>

theorem startCamera_ladder_failure:
  assumes "available (checkCameraAccess h)"
  shows "(\<forall>k e. k < length (constraintOptions (isMobile h))
            \<and> (\<forall>i < k. fails_without_denial h i)
            \<and> getUserMedia h k (constraintOptions (isMobile h) ! k) = Inl e
            \<and> error_name e = ''NotAllowedError'' \<longrightarrow>
          fst (startCamera h s) = Some False
          \<and> requests (snd (startCamera h s))
              = requests s @ take (Suc k) (constraintOptions (isMobile h))
          \<and> error (snd (startCamera h s)) = Some (errorMessageFor e)
          \<and> notifications (snd (startCamera h s))
              = notifications s @ [ErrorOccurred (errorMessageFor e)])
    \<and> (\<forall>e. (\<forall>i < 3. fails_without_denial h i)
            \<and> getUserMedia h 3 (constraintOptions (isMobile h) ! 3) = Inl e
            \<and> error_name e \<noteq> ''NotAllowedError'' \<longrightarrow>
          fst (startCamera h s) = Some False
          \<and> requests (snd (startCamera h s)) = requests s @ constraintOptions (isMobile h)
          \<and> error (snd (startCamera h s)) = Some (errorMessageFor e)
          \<and> notifications (snd (startCamera h s))
              = notifications s @ [ErrorOccurred (errorMessageFor e)])
    \<and> (\<forall>e. instance_of_Error e \<longrightarrow>
          (error_name e = ''NotAllowedError'' \<longrightarrow>
             errorMessageFor e
               = ''Camera access denied. Please allow camera permissions and try again.'')
          \<and> (error_name e = ''NotFoundError'' \<longrightarrow>
             errorMessageFor e = ''No camera found on this device.'')
          \<and> (error_name e = ''NotReadableError'' \<longrightarrow>
             errorMessageFor e = ''Camera is already in use by another application.'')
          \<and> (error_name e \<noteq> ''NotAllowedError'' \<and> error_name e \<noteq> ''NotFoundError''
             \<and> error_name e \<noteq> ''NotReadableError'' \<longrightarrow>
             errorMessageFor e
               = (if error_message e \<noteq> [] then error_message e else ''Failed to access camera'')))
    \<and> (\<forall>e. \<not> instance_of_Error e \<longrightarrow> errorMessageFor e = ''Failed to access camera'')"
proof (intro conjI allI impI)
  fix k e
  assume a: "k < length (constraintOptions (isMobile h))
            \<and> (\<forall>i < k. fails_without_denial h i)
            \<and> getUserMedia h k (constraintOptions (isMobile h) ! k) = Inl e
            \<and> error_name e = ''NotAllowedError''"
  then have t: "try_block h s =
     (Threw e, (ladder_start s)\<lparr>requests := requests s @ take (Suc k) (constraintOptions (isMobile h))\<rparr>)"
    using try_block_denied [OF assms, of k e s] by blast
  show "fst (startCamera h s) = Some False"
    by (simp add: startCamera_thrown [OF t])
  show "requests (snd (startCamera h s))
              = requests s @ take (Suc k) (constraintOptions (isMobile h))"
    by (simp add: startCamera_thrown [OF t])
  show "error (snd (startCamera h s)) = Some (errorMessageFor e)"
    by (simp add: startCamera_thrown [OF t])
  show "notifications (snd (startCamera h s))
              = notifications s @ [ErrorOccurred (errorMessageFor e)]"
    by (simp add: startCamera_thrown [OF t] ladder_start_def)
next
  fix e
  assume a: "(\<forall>i < 3. fails_without_denial h i)
            \<and> getUserMedia h 3 (constraintOptions (isMobile h) ! 3) = Inl e
            \<and> error_name e \<noteq> ''NotAllowedError''"
  then have t: "try_block h s =
     (Threw e, (ladder_start s)\<lparr>requests := requests s @ constraintOptions (isMobile h)\<rparr>)"
    using try_block_exhausted [OF assms, of e s] by blast
  show "fst (startCamera h s) = Some False"
    by (simp add: startCamera_thrown [OF t])
  show "requests (snd (startCamera h s)) = requests s @ constraintOptions (isMobile h)"
    by (simp add: startCamera_thrown [OF t])
  show "error (snd (startCamera h s)) = Some (errorMessageFor e)"
    by (simp add: startCamera_thrown [OF t])
  show "notifications (snd (startCamera h s))
              = notifications s @ [ErrorOccurred (errorMessageFor e)]"
    by (simp add: startCamera_thrown [OF t] ladder_start_def)
qed (simp_all add: errorMessageFor_def)

theorem startCamera_ladder_failure_witness:
  "available (checkCameraAccess browser_denied)
   \<and> fails_without_denial browser_denied 0
   \<and> getUserMedia browser_denied 1 (constraintOptions (isMobile browser_denied) ! 1) = Inl notAllowed
   \<and> error_name notAllowed = ''NotAllowedError'' \<and> instance_of_Error notAllowed
   \<and> fst (startCamera browser_denied mounted) = Some False
   \<and> length (requests (snd (startCamera browser_denied mounted))) = 2
   \<and> error (snd (startCamera browser_denied mounted))
       = Some ''Camera access denied. Please allow camera permissions and try again.''
   \<and> available (checkCameraAccess browser_no_camera)
   \<and> fails_without_denial browser_no_camera 0 \<and> fails_without_denial browser_no_camera 1
   \<and> fails_without_denial browser_no_camera 2
   \<and> getUserMedia browser_no_camera 3 (constraintOptions (isMobile browser_no_camera) ! 3)
       = Inl notFound
   \<and> instance_of_Error notFound \<and> error_name notFound = ''NotFoundError''
   \<and> fst (startCamera browser_no_camera mounted) = Some False
   \<and> length (requests (snd (startCamera browser_no_camera mounted))) = 4
   \<and> error (snd (startCamera browser_no_camera mounted))
       = Some ''No camera found on this device.''"
proof -
  have a1: "available (checkCameraAccess browser_denied)"
    and a2: "available (checkCameraAccess browser_no_camera)"
    by (simp_all add: browser_denied_def browser_no_camera_def browser_example_def)
  have d: "1 < length (constraintOptions (isMobile browser_denied))
            \<and> (\<forall>i < 1. fails_without_denial browser_denied i)
            \<and> getUserMedia browser_denied 1 (constraintOptions (isMobile browser_denied) ! 1)
                = Inl notAllowed
            \<and> error_name notAllowed = ''NotAllowedError''"
    by (simp add: browser_denied_def browser_example_def constraintOptions_def
          fails_without_denial_def notFound_def notAllowed_def)
  have n: "(\<forall>i < 3. fails_without_denial browser_no_camera i)
            \<and> getUserMedia browser_no_camera 3
                (constraintOptions (isMobile browser_no_camera) ! 3) = Inl notFound
            \<and> error_name notFound \<noteq> ''NotAllowedError''"
    by (simp add: browser_no_camera_def browser_example_def fails_without_denial_def notFound_def)
  have i: "instance_of_Error notAllowed" "instance_of_Error notFound"
    "error_name notFound = ''NotFoundError''"
    by (simp_all add: notAllowed_def notFound_def)
  note m = startCamera_ladder_failure [OF a1, of mounted, THEN conjunct2, THEN conjunct2,
      THEN conjunct1, rule_format]
  from startCamera_ladder_failure [OF a1, of mounted, THEN conjunct1, rule_format, OF d]
    startCamera_ladder_failure [OF a2, of mounted, THEN conjunct2, THEN conjunct1, rule_format, OF n]
    m [OF i(1)] m [OF i(2)] a1 a2 d n i
  show ?thesis
    by (simp add: mounted_def constraintOptions_def)
qed

lemma bind_and_wait_cases:
  assumes "bind_and_wait h stream v s = (c, s')"
  shows "(c = Returned True \<and> promise_of (settled (waitForVideo h)) = Fulfilled
          \<and> notifications s' = notifications s @ [CameraReady True]
          \<and> hasPermission s' = hasPermission s)
       \<or> (\<exists>e. c = Threw e \<and> promise_of (settled (waitForVideo h)) = Rejected e
          \<and> notifications s' = notifications s \<and> hasPermission s' = hasPermission s
          \<and> isActive s' = isActive s)"
proof -
  have "promise_of (settled (waitForVideo h)) \<noteq> Pending"
    using waitForVideo_settles [of h]
    by (cases "settled (waitForVideo h)" rule: promise_of.cases) auto
  with assms show ?thesis
    by (auto simp: bind_and_wait_def Let_def split: promise.splits)
qed

lemma try_block_cases:
  assumes "try_block h s = (c, s')"
  shows "(\<not> available (checkCameraAccess h) \<and> c = Returned False
          \<and> (\<exists>m. notifications s' = notifications s @ [ErrorOccurred m])
          \<and> isActive s' = isActive s)
       \<or> (available (checkCameraAccess h) \<and> hasPermission s' = Some True
          \<and> ((\<exists>e. c = Threw e \<and> notifications s' = notifications s \<and> isActive s' = isActive s)
            \<or> (c = Returned False \<and> notifications s' = notifications s \<and> isActive s' = isActive s)
            \<or> (c = Returned True \<and> notifications s' = notifications s @ [CameraReady True])))"
proof (cases "available (checkCameraAccess h)")
  case False
  with assms show ?thesis
    by (auto simp: try_block_def Let_def)
next
  case True
  obtain r s3 where t: "tryOptions (getUserMedia h) (constraintOptions (isMobile h)) 0 None
                          (ladder_start s) = (r, s3)"
    by (cases "tryOptions (getUserMedia h) (constraintOptions (isMobile h)) 0 None (ladder_start s)")
  from tryOptions_spec [OF t] obtain rq where s3: "s3 = (ladder_start s)\<lparr>requests := rq\<rparr>"
    by auto
  show ?thesis
  proof (cases "\<exists>stream le v. r = Inr (Some stream, le) \<and> videoRef s3 = Some v")
    case False
    with assms True s3 show ?thesis
      unfolding try_block_tryOptions [OF True t]
      by (auto simp: ladder_start_def split: sum.splits option.splits prod.splits)
  next
    case wait: True
    then obtain stream le v where r: "r = Inr (Some stream, le)" "videoRef s3 = Some v"
      by blast
    with assms have "bind_and_wait h stream v s3 = (c, s')"
      unfolding try_block_tryOptions [OF True t] by simp
    from bind_and_wait_cases [OF this] True s3 show ?thesis
      by (auto simp: ladder_start_def)
  qed
qed

lemma startCamera_cases:
  "(fst (startCamera h s) = Some True
      \<and> notifications (snd (startCamera h s)) = notifications s @ [CameraReady True])
   \<or> (fst (startCamera h s) = Some False
      \<and> (notifications (snd (startCamera h s)) = notifications s
          \<or> (\<exists>m. notifications (snd (startCamera h s)) = notifications s @ [ErrorOccurred m]))
      \<and> isActive (snd (startCamera h s)) = isActive s)"
proof -
  obtain c s' where t: "try_block h s = (c, s')"
    by (cases "try_block h s")
  from try_block_cases [OF t] show ?thesis
    by (auto simp: startCamera_def t catch_block_def Let_def split: if_splits)
qed

text \<open>
  C10: whenever the \<^verbatim>\<open>try\<close> block throws, which happens only after the permission probe
  has succeeded and set the permission flag to true, \<^verbatim>\<open>startCamera\<close> returns false with
  the permission flag set to false, whatever the failure is (permission denied, no device
  found, device busy, video not ready).
\<close>

theorem startCamera_failure_revokes_permission:
  assumes "try_block h s = (Threw e, s')"
  shows "available (checkCameraAccess h) \<and> hasPermission s' = Some True
     \<and> fst (startCamera h s) = Some False
     \<and> hasPermission (snd (startCamera h s)) = Some False
     \<and> error (snd (startCamera h s)) = Some (errorMessageFor e)"
  using try_block_cases [OF assms] by (auto simp: startCamera_thrown [OF assms])

theorem startCamera_failure_revokes_permission_witness:
  "try_block browser_no_camera mounted
     = (Threw notFound, (ladder_start mounted)\<lparr>requests := constraintOptions False\<rparr>)
   \<and> error_name notFound = ''NotFoundError''
   \<and> hasPermission ((ladder_start mounted)\<lparr>requests := constraintOptions False\<rparr>) = Some True
   \<and> fst (startCamera browser_no_camera mounted) = Some False
   \<and> hasPermission (snd (startCamera browser_no_camera mounted)) = Some False
   \<and> error (snd (startCamera browser_no_camera mounted)) = Some ''No camera found on this device.''"
proof -
  have a: "available (checkCameraAccess browser_no_camera)"
    by (simp add: browser_no_camera_def browser_example_def)
  have n: "\<forall>i < 3. fails_without_denial browser_no_camera i"
    by (simp add: browser_no_camera_def browser_example_def fails_without_denial_def notFound_def)
  have t: "try_block browser_no_camera mounted
     = (Threw notFound, (ladder_start mounted)\<lparr>requests := constraintOptions False\<rparr>)"
    using try_block_exhausted [OF a n, of notFound mounted]
    by (simp add: browser_no_camera_def browser_example_def notFound_def mounted_def)
  from startCamera_failure_revokes_permission [OF t] t show ?thesis
    by (simp add: errorMessageFor_def notFound_def)
qed

lemma try_block_stream:
  assumes "available (checkCameraAccess h)"
    and "j < length (constraintOptions (isMobile h))"
    and "\<forall>i < j. fails_without_denial h i"
    and "getUserMedia h j (constraintOptions (isMobile h) ! j) = Inr stream"
    and "videoRef s = Some v"
  shows "try_block h s =
     bind_and_wait h stream v
       ((ladder_start s)\<lparr>requests := requests s @ take (Suc j) (constraintOptions (isMobile h))\<rparr>)"
proof -
  have "\<exists>le. tryOptions (getUserMedia h) (constraintOptions (isMobile h)) 0 None (ladder_start s)
      = (Inr (Some stream, le),
         (ladder_start s)\<lparr>requests := requests s @ take (Suc j) (constraintOptions (isMobile h))\<rparr>)"
    unfolding ladder_prefix [OF assms(2,3)]
    using assms(2,4)
    by (subst tryOptions.simps) (simp add: take_Suc_conv_app_nth ladder_start_def)
  then obtain le where "tryOptions (getUserMedia h) (constraintOptions (isMobile h)) 0 None (ladder_start s)
      = (Inr (Some stream, le),
         (ladder_start s)\<lparr>requests := requests s @ take (Suc j) (constraintOptions (isMobile h))\<rparr>)"
    by blast
  from try_block_tryOptions [OF assms(1) this] assms(5) show ?thesis
    by (simp add: ladder_start_def)
qed

lemma yields_streamD:
  "yields_stream h j \<Longrightarrow> \<exists>stream. getUserMedia h j (constraintOptions (isMobile h) ! j) = Inr stream"
  by (cases "getUserMedia h j (constraintOptions (isMobile h) ! j)") (auto simp: yields_stream_def)

lemma promise_not_pending: "promise_of (settled (waitForVideo h)) \<noteq> Pending"
  using waitForVideo_settles [of h]
  by (cases "settled (waitForVideo h)" rule: promise_of.cases) auto

lemma startCamera_returns: "fst (startCamera h s) \<noteq> None"
  using startCamera_cases [of h s] by auto

lemma startCamera_True_Fulfilled:
  assumes "fst (startCamera h s) = Some True"
  shows "promise_of (settled (waitForVideo h)) = Fulfilled"
proof -
  obtain c s' where t: "try_block h s = (c, s')"
    by (cases "try_block h s")
  with assms have c: "c = Returned True"
    by (auto simp: startCamera_def catch_block_def Let_def split: completion.splits)
  have a: "available (checkCameraAccess h)"
    using try_block_cases [OF t] c by auto
  obtain r s3 where l: "tryOptions (getUserMedia h) (constraintOptions (isMobile h)) 0 None
                          (ladder_start s) = (r, s3)"
    by (cases "tryOptions (getUserMedia h) (constraintOptions (isMobile h)) 0 None (ladder_start s)")
  from t c obtain stream v where "bind_and_wait h stream v s3 = (Returned True, s')"
    unfolding try_block_tryOptions [OF a l]
    by (auto split: sum.splits option.splits prod.splits)
  from bind_and_wait_cases [OF this] show ?thesis
    by auto
qed

text \<open>
  C4: the readiness wait always ends. Whatever events the video element fires, the promise
  of the wait is settled, so \<^verbatim>\<open>startCamera\<close> returns. If no event of the video element
  fires before the ultimate timeout and the readiness level read by the fallback timer is
  below 2, the wait is rejected with the message of the ultimate timeout and
  \<^verbatim>\<open>startCamera\<close> returns false; when a stream was acquired and bound, that message is
  the error surfaced. If no event fires before the fallback timer and the readiness level
  read then is at least 2, the wait is fulfilled. The ultimate timeout is 8000 milliseconds
  on a mobile device and 5000 otherwise; the fallback timer 3000 and 2000.
\<close>

theorem readiness_wait_terminates:
  "promise_of (settled (waitForVideo h)) \<noteq> Pending
   \<and> fst (startCamera h s) \<noteq> None
   \<and> ((\<forall>(time, e) \<in> set (video_events h). ultimate_delay (isMobile h) \<le> time)
        \<and> readyState h (fallback_delay (isMobile h)) < 2 \<longrightarrow>
      promise_of (settled (waitForVideo h))
        = Rejected (new_Error (not_ready_message (isMobile h)))
      \<and> fst (startCamera h s) = Some False
      \<and> (available (checkCameraAccess h)
          \<and> (\<exists>j < length (constraintOptions (isMobile h)).
                yields_stream h j \<and> (\<forall>i < j. fails_without_denial h i))
          \<and> videoRef s \<noteq> None \<longrightarrow>
          error (snd (startCamera h s)) = Some (not_ready_message (isMobile h))))
   \<and> ((\<forall>(time, e) \<in> set (video_events h). fallback_delay (isMobile h) \<le> time)
        \<and> 2 \<le> readyState h (fallback_delay (isMobile h)) \<longrightarrow>
      promise_of (settled (waitForVideo h)) = Fulfilled)
   \<and> ultimate_delay True = 8000 \<and> ultimate_delay False = 5000
   \<and> fallback_delay True = 3000 \<and> fallback_delay False = 2000
   \<and> not_ready_message True = ''Video not ready after 8 seconds''
   \<and> not_ready_message False = ''Video not ready after 5 seconds''"
proof (intro conjI impI)
  show "promise_of (settled (waitForVideo h)) \<noteq> Pending"
    by (rule promise_not_pending)
  show "fst (startCamera h s) \<noteq> None"
    by (rule startCamera_returns)
next
  assume a: "(\<forall>(time, e) \<in> set (video_events h). ultimate_delay (isMobile h) \<le> time)
        \<and> readyState h (fallback_delay (isMobile h)) < 2"
  then show rej: "promise_of (settled (waitForVideo h))
        = Rejected (new_Error (not_ready_message (isMobile h)))"
    using waitForVideo_ultimate [of h] by blast
  show "fst (startCamera h s) = Some False"
    using startCamera_cases [of h s] startCamera_True_Fulfilled [of h s] rej by auto
  assume b: "available (checkCameraAccess h)
          \<and> (\<exists>j < length (constraintOptions (isMobile h)).
                yields_stream h j \<and> (\<forall>i < j. fails_without_denial h i))
          \<and> videoRef s \<noteq> None"
  then obtain j v where j0: "j < length (constraintOptions (isMobile h))"
      "yields_stream h j" "\<forall>i < j. fails_without_denial h i" "videoRef s = Some v"
    by auto
  from yields_streamD [OF j0(2)] obtain stream
    where "getUserMedia h j (constraintOptions (isMobile h) ! j) = Inr stream"
    by blast
  with j0 have j: "j < length (constraintOptions (isMobile h))"
      "\<forall>i < j. fails_without_denial h i"
      "getUserMedia h j (constraintOptions (isMobile h) ! j) = Inr stream"
      "videoRef s = Some v"
    by auto
  from b have av: "available (checkCameraAccess h)"
    by simp
  have "try_block h s =
     (Threw (new_Error (not_ready_message (isMobile h))),
      (ladder_start s)\<lparr>requests := requests s @ take (Suc j) (constraintOptions (isMobile h)),
        videoRef := Some ((setAttribute ''autoplay'' ''true''
           (setAttribute ''webkit-playsinline'' ''true''
             (setAttribute ''playsinline'' ''true'' v)))\<lparr>muted := True, srcObject := Some stream\<rparr>),
        streamRef := Some stream\<rparr>)"
    unfolding try_block_stream [OF av j]
    by (simp add: bind_and_wait_def Let_def rej)
  from startCamera_thrown [OF this]
  show "error (snd (startCamera h s)) = Some (not_ready_message (isMobile h))"
    by (simp add: errorMessageFor_def new_Error_def not_ready_message_def)
next
  assume "(\<forall>(time, e) \<in> set (video_events h). fallback_delay (isMobile h) \<le> time)
        \<and> 2 \<le> readyState h (fallback_delay (isMobile h))"
  then show "promise_of (settled (waitForVideo h)) = Fulfilled"
    using waitForVideo_fallback [of h] by blast
qed (simp_all add: ultimate_delay_def fallback_delay_def not_ready_message_def)

theorem readiness_wait_terminates_witness:
  "isMobile browser_stalled
   \<and> video_events browser_stalled = [(9000, LoadedData)]
   \<and> ultimate_delay True \<le> 9000
   \<and> readyState browser_stalled (fallback_delay True) < 2
   \<and> available (checkCameraAccess browser_stalled)
   \<and> yields_stream browser_stalled 0
   \<and> videoRef mounted \<noteq> None
   \<and> promise_of (settled (waitForVideo browser_stalled))
       = Rejected (new_Error ''Video not ready after 8 seconds'')
   \<and> fst (startCamera browser_stalled mounted) = Some False
   \<and> error (snd (startCamera browser_stalled mounted)) = Some ''Video not ready after 8 seconds''"
proof -
  have m: "isMobile browser_stalled"
    and e: "video_events browser_stalled = [(9000, LoadedData)]"
    and a: "available (checkCameraAccess browser_stalled)"
    by (simp_all add: browser_stalled_def browser_example_def)
  have u: "(\<forall>(time, e) \<in> set (video_events browser_stalled).
              ultimate_delay (isMobile browser_stalled) \<le> time)
        \<and> readyState browser_stalled (fallback_delay (isMobile browser_stalled)) < 2"
    by (simp add: browser_stalled_def browser_example_def ultimate_delay_def fallback_delay_def)
  have y: "yields_stream browser_stalled 0"
    by (simp add: yields_stream_def browser_stalled_def)
  have g: "available (checkCameraAccess browser_stalled)
          \<and> (\<exists>j < length (constraintOptions (isMobile browser_stalled)).
                yields_stream browser_stalled j \<and> (\<forall>i < j. fails_without_denial browser_stalled i))
          \<and> videoRef mounted \<noteq> None"
    using a y by (auto simp: constraintOptions_def mounted_def intro!: exI [of _ 0])
  note t = readiness_wait_terminates [of browser_stalled mounted, THEN conjunct2, THEN conjunct2,
      THEN conjunct1, rule_format, OF u]
  from t [THEN conjunct1] t [THEN conjunct2, THEN conjunct1]
    t [THEN conjunct2, THEN conjunct2, rule_format, OF g] m e a u y
  show ?thesis
    by (simp add: not_ready_message_def ultimate_delay_def fallback_delay_def mounted_def)
qed

text \<open>
  C3: in every state of the run of the readiness wait, whatever events and timers fire and
  in whatever number, \<^verbatim>\<open>resolve\<close> has been called at most once; it has been called only
  after the flag \<^verbatim>\<open>resolved\<close> was set; and once the flag is set (by the first readiness
  signal handled, or by the error event) no listener is registered any more. A call of
  \<^verbatim>\<open>startCamera\<close> adds at most one \<^verbatim>\<open>onCameraReady(true)\<close> to the callbacks called.
\<close>

theorem readiness_resolves_once:
  "(\<forall>w \<in> set (waitForVideo_run h).
       resolve_calls w \<le> 1
       \<and> (0 < resolve_calls w \<longrightarrow> resolved w)
       \<and> (resolved w \<longrightarrow> listeners w = {}))
   \<and> waitForVideo h \<in> set (waitForVideo_run h)
   \<and> (\<exists>ns. notifications (snd (startCamera h s)) = notifications s @ ns
          \<and> length (filter (\<lambda>n. n = CameraReady True) ns) \<le> 1)"
proof (intro conjI ballI)
  fix w
  assume "w \<in> set (waitForVideo_run h)"
  from waitForVideo_once [OF this]
  show "resolve_calls w \<le> 1" "0 < resolve_calls w \<longrightarrow> resolved w"
    "resolved w \<longrightarrow> listeners w = {}"
    by auto
next
  show "waitForVideo h \<in> set (waitForVideo_run h)"
    by (simp add: waitForVideo_def waitForVideo_run_def event_loop_nonempty)
  show "\<exists>ns. notifications (snd (startCamera h s)) = notifications s @ ns
          \<and> length (filter (\<lambda>n. n = CameraReady True) ns) \<le> 1"
    using startCamera_cases [of h s] by auto
qed

lemma run_example:
  "waitForVideo_run browser_example
     = [initial_wait,
        \<lparr>resolved = True, listeners = {}, settled = [Resolve]\<rparr>,
        \<lparr>resolved = True, listeners = {}, settled = [Resolve]\<rparr>,
        \<lparr>resolved = True, listeners = {}, settled = [Resolve]\<rparr>,
        \<lparr>resolved = True, listeners = {}, settled = [Resolve]\<rparr>]"
  by (simp add: waitForVideo_run_def browser_example_def initial_queue_def set_timers_def
        fallback_delay_def ultimate_delay_def event_loop.simps initial_wait_def
        onLoadedData_def onCanPlay_def removeListeners_def Let_def)

theorem readiness_resolves_once_witness:
  "waitForVideo browser_example \<in> set (waitForVideo_run browser_example)
   \<and> video_events browser_example = [(120, LoadedData), (130, CanPlay)]
   \<and> 0 < resolve_calls (waitForVideo browser_example)
   \<and> resolved (waitForVideo browser_example)
   \<and> resolve_calls (waitForVideo browser_example) \<le> 1
   \<and> listeners (waitForVideo browser_example) = {}
   \<and> notifications (snd (startCamera browser_example mounted)) = [CameraReady True]"
proof -
  have w: "waitForVideo browser_example = \<lparr>resolved = True, listeners = {}, settled = [Resolve]\<rparr>"
    by (simp add: waitForVideo_def run_example)
  have t: "try_block browser_example mounted =
     bind_and_wait browser_example \<lparr>getTracks = [1]\<rparr>
       \<lparr>srcObject = None, muted = True, attributes = []\<rparr>
       ((ladder_start mounted)\<lparr>requests := requests mounted
           @ take (Suc 2) (constraintOptions (isMobile browser_example))\<rparr>)"
    by (rule try_block_stream)
       (simp_all add: browser_example_def constraintOptions_def fails_without_denial_def
          notFound_def mounted_def)
  have n: "notifications (snd (startCamera browser_example mounted)) = [CameraReady True]"
    unfolding startCamera_def t
    by (simp add: bind_and_wait_def Let_def w ladder_start_def mounted_def)
  from readiness_resolves_once [of browser_example mounted, THEN conjunct1, rule_format,
      of "waitForVideo browser_example"]
    readiness_resolves_once [of browser_example mounted, THEN conjunct2, THEN conjunct1]
  have "resolve_calls (waitForVideo browser_example) \<le> 1
      \<and> (resolved (waitForVideo browser_example) \<longrightarrow> listeners (waitForVideo browser_example) = {})"
    by blast
  moreover have "video_events browser_example = [(120, LoadedData), (130, CanPlay)]"
    by (simp add: browser_example_def)
  ultimately show ?thesis
    using n
    by (simp add: w resolve_calls_def run_example)
qed

text \<open>
  The ultimate timeout rejects without setting the flag and without removing the
  listeners. An event that arrives after it still runs its handler once, which removes the
  listeners and calls \<^verbatim>\<open>resolve\<close> on the promise that is already rejected.
\<close>

lemma late_signal_after_timeout:
  "waitForVideo_run browser_stalled
     = [initial_wait,
        initial_wait,
        initial_wait\<lparr>settled := [Reject (new_Error ''Video not ready after 8 seconds'')]\<rparr>,
        \<lparr>resolved = True, listeners = {},
          settled = [Reject (new_Error ''Video not ready after 8 seconds'')]\<rparr>,
        \<lparr>resolved = True, listeners = {},
          settled = [Reject (new_Error ''Video not ready after 8 seconds''), Resolve]\<rparr>]"
  by (simp add: waitForVideo_run_def browser_stalled_def browser_example_def initial_queue_def
        set_timers_def fallback_delay_def ultimate_delay_def event_loop.simps initial_wait_def
        onLoadedData_def removeListeners_def Let_def not_ready_message_def)

text \<open>The successful path: when candidate \<open>j\<close> is the first to yield a stream, the video
  element exists and the wait is fulfilled, \<^verbatim>\<open>startCamera\<close> returns true with the
  session active, the stream held and bound to the video element, and no track stopped.\<close>

lemma startCamera_success:
  assumes "available (checkCameraAccess h)"
    and "j < length (constraintOptions (isMobile h))"
    and "\<forall>i < j. fails_without_denial h i"
    and "getUserMedia h j (constraintOptions (isMobile h) ! j) = Inr stream"
    and "videoRef s = Some v"
    and "promise_of (settled (waitForVideo h)) = Fulfilled"
  shows "fst (startCamera h s) = Some True
     \<and> isActive (snd (startCamera h s))
     \<and> streamRef (snd (startCamera h s)) = Some stream
     \<and> (\<exists>v'. videoRef (snd (startCamera h s)) = Some v' \<and> srcObject v' = Some stream)
     \<and> stopped (snd (startCamera h s)) = stopped s
     \<and> \<not> isLoading (snd (startCamera h s))
     \<and> error (snd (startCamera h s)) = None
     \<and> hasPermission (snd (startCamera h s)) = Some True"
  unfolding startCamera_def try_block_stream [OF assms(1-5)]
  by (simp add: bind_and_wait_def Let_def assms(6) ladder_start_def)

lemma stopped_stopCamera:
  "stopped (stopCamera s)
     = stopped s \<union> (case streamRef s of Some stream \<Rightarrow> set (getTracks stream) | None \<Rightarrow> {})"
  by (cases "streamRef s"; cases "videoRef s")
     (auto simp: stopCamera_def foldl_track_stop Let_def)

text \<open>
  \<^verbatim>\<open>startCamera\<close> does not look at the session it may already hold. A second
  successful call replaces the stream held, and a later \<^verbatim>\<open>stopCamera\<close> stops the
  tracks of the second stream only.
\<close>

lemma restart_orphans_stream:
  "streamRef (snd (startCamera browser_example mounted)) = Some \<lparr>getTracks = [1]\<rparr>
   \<and> streamRef (snd (startCamera browser_other (snd (startCamera browser_example mounted))))
       = Some \<lparr>getTracks = [2]\<rparr>
   \<and> stopped (stopCamera
         (snd (startCamera browser_other (snd (startCamera browser_example mounted))))) = {2}"
proof -
  let ?s1 = "snd (startCamera browser_example mounted)"
  let ?s2 = "snd (startCamera browser_other ?s1)"
  have w1: "promise_of (settled (waitForVideo browser_example)) = Fulfilled"
    by (simp add: waitForVideo_def run_example)
  have "waitForVideo_run browser_other = waitForVideo_run browser_example"
    by (simp add: waitForVideo_run_def browser_other_def)
  with w1 have w2: "promise_of (settled (waitForVideo browser_other)) = Fulfilled"
    by (simp add: waitForVideo_def)
  have 1: "streamRef ?s1 = Some \<lparr>getTracks = [1]\<rparr> \<and> stopped ?s1 = stopped mounted
      \<and> (\<exists>v'. videoRef ?s1 = Some v')"
    using startCamera_success [of browser_example 2 "\<lparr>getTracks = [1]\<rparr>" mounted _ , OF _ _ _ _ _ w1]
    by (auto simp: browser_example_def constraintOptions_def fails_without_denial_def
          notFound_def mounted_def)
  then obtain v' where v: "videoRef ?s1 = Some v'"
    by blast
  have 2: "streamRef ?s2 = Some \<lparr>getTracks = [2]\<rparr> \<and> stopped ?s2 = stopped ?s1"
    using startCamera_success [of browser_other 0 "\<lparr>getTracks = [2]\<rparr>" ?s1 v', OF _ _ _ _ v w2]
    by (simp add: browser_other_def browser_example_def constraintOptions_def)
  have "stopped (stopCamera ?s2) = stopped ?s2 \<union> {2}"
    using 2 by (simp add: stopped_stopCamera)
  with 1 2 show ?thesis
    by (simp add: mounted_def)
qed

section \<open>Properties of capture\<close>

lemma every_iff: "every p xs \<longleftrightarrow> (\<forall>i < length xs. p (xs ! i) i)"
  by (simp add: every_def list_all_length)

lemma black_channel: "black px \<longleftrightarrow> (\<forall>c < 3. channel c px = 0)"
proof (cases px)
  case (fields r g b a)
  have "(\<forall>c < 3. P c) \<longleftrightarrow> P 0 \<and> P 1 \<and> P (2 :: nat)" for P
    by (auto simp: numeral_3_eq_3 less_Suc_eq numeral_2_eq_2)
  then show ?thesis
    using fields by simp
qed

lemma isBlank_getImageData:
  "isBlank (getImageData bm sw sh) \<longleftrightarrow> (\<forall>x < sw. \<forall>y < sh. black (bm x y))"
proof
  assume b: "isBlank (getImageData bm sw sh)"
  show "\<forall>x < sw. \<forall>y < sh. black (bm x y)"
  proof (intro allI impI)
    fix x y
    assume xy: "x < sw" "y < sh"
    have "channel c (bm x y) = 0" if "c < 3" for c
    proof -
      let ?i = "4 * (y * sw + x) + c"
      have "y * sw + x < sw * sh"
      proof -
        have "y * sw + x < y * sw + sw" using xy(1) by simp
        also have "\<dots> = (Suc y) * sw" by simp
        also have "\<dots> \<le> sh * sw" using xy(2) by (intro mult_le_mono1) simp
        finally show ?thesis by (simp add: mult.commute)
      qed
      then have lt: "?i < 4 * sw * sh"
        using that by simp
      have "(4 * k + c) mod 4 = c \<and> (4 * k + c) div 4 = k" for k :: nat
        using that by presburger
      then have m: "?i mod 4 = c" "?i div 4 = y * sw + x"
        by blast+
      have d: "(y * sw + x) mod sw = x" "(y * sw + x) div sw = y"
        using xy(1) by simp_all
      from b lt have "?i mod 4 = 3 \<or> channel (?i mod 4) (bm ((?i div 4) mod sw) ((?i div 4) div sw)) = 0"
        unfolding isBlank_def every_iff getImageData_def
        by (simp del: mult_Suc_right add_mult_distrib2)
      then show ?thesis
        using that unfolding m d by simp
    qed
    then show "black (bm x y)"
      by (simp add: black_channel)
  qed
next
  assume a: "\<forall>x < sw. \<forall>y < sh. black (bm x y)"
  have "i mod 4 = 3 \<or> channel (i mod 4) (bm ((i div 4) mod sw) ((i div 4) div sw)) = 0"
    if "i < 4 * sw * sh" for i
  proof -
    from that have j: "i div 4 < sw * sh"
      by (simp add: less_mult_imp_div_less mult.commute mult.left_commute)
    then have "0 < sw"
      by (cases sw) auto
    then have x: "(i div 4) mod sw < sw"
      by simp
    have y: "(i div 4) div sw < sh"
      using j by (simp add: less_mult_imp_div_less mult.commute)
    from a x y have "black (bm ((i div 4) mod sw) ((i div 4) div sw))"
      by blast
    moreover have "i mod 4 = 3 \<or> i mod 4 < 3"
      by presburger
    ultimately show ?thesis
      by (auto simp: black_channel)
  qed
  then show "isBlank (getImageData bm sw sh)"
    unfolding isBlank_def every_iff getImageData_def by simp
qed

lemma capture_inactive:
  "videoRef s = None \<or> canvasRef s = None \<or> \<not> isActive s \<Longrightarrow> capture p h s = (None, s)"
  by (auto simp: capture_def split: option.splits)

lemma capture_frame_fields:
  "isActive (snd (capture_frame p h c s)) = isActive s
   \<and> canvasRef (snd (capture_frame p h c s)) = canvasRef s
   \<and> videoRef (snd (capture_frame p h c s)) = videoRef s
   \<and> awaited (snd (capture_frame p h c s)) = awaited s
   \<and> (\<forall>c'. c' \<noteq> c \<longrightarrow> canvases (snd (capture_frame p h c s)) c' = canvases s c')"
  by (simp add: capture_frame_def Let_def split: prod.splits sum.splits)

lemma capture_fields:
  "isActive (snd (capture p h s)) = isActive s
   \<and> canvasRef (snd (capture p h s)) = canvasRef s
   \<and> videoRef (snd (capture p h s)) = videoRef s"
  by (simp add: capture_def capture_frame_fields Let_def split: option.splits)

lemma capture_frame_result:
  "fst (capture_frame p h c s) = None \<or> fst (capture_frame p h c s) = Some c"
  by (simp add: capture_frame_def Let_def split: prod.splits sum.splits)

lemma capture_active:
  assumes "videoRef s = Some v" and "canvasRef s = Some c" and "isActive s"
  shows "capture p h s =
     (if readyState h 0 < 2 then
        (if isMobile h \<and> 1 \<le> readyState h 0 then
           (if readyState h 500 < 2 then (None, s\<lparr>awaited := awaited s @ [500]\<rparr>)
            else capture_frame p h c (s\<lparr>awaited := awaited s @ [500]\<rparr>))
         else (None, s))
      else capture_frame p h c s)"
  using assms by (simp add: capture_def Let_def)

lemma capture_result:
  assumes "fst (capture p h s) = Some c"
  shows "canvasRef s = Some c \<and> videoRef s \<noteq> None \<and> isActive s"
proof -
  have "\<not> (videoRef s = None \<or> canvasRef s = None \<or> \<not> isActive s)"
  proof
    assume "videoRef s = None \<or> canvasRef s = None \<or> \<not> isActive s"
    from capture_inactive [OF this, of p h] assms show False
      by simp
  qed
  then have a: "videoRef s \<noteq> None" "canvasRef s \<noteq> None" "isActive s"
    by auto
  then obtain v c' where vc: "videoRef s = Some v" "canvasRef s = Some c'"
    by auto
  from assms capture_frame_result [of p h c' s]
    capture_frame_result [of p h c' "s\<lparr>awaited := awaited s @ [500]\<rparr>"]
  have "c' = c"
    unfolding capture_active [OF vc a(3)] by (auto split: if_splits)
  with vc a show ?thesis
    by simp
qed

lemma canvas_all_updated:
  "cv\<lparr>canvas_width := a, canvas_height := b, bitmap := m\<rparr>
     = \<lparr>canvas_width = a, canvas_height = b, bitmap = m\<rparr>"
  by (cases cv) simp

lemma capture_frame_drawn:
  assumes "resolved_dimensions p h = (vw, vh)" and "vw \<noteq> 0" and "vh \<noteq> 0"
    and "getContext2d h" and "drawImage h vw vh = Inr img"
  shows "capture_frame p h c s =
     (if (\<forall>x < min 10 vw. \<forall>y < min 10 vh. black (img x y)) then None else Some c,
      s\<lparr>canvases := (canvases s)(c := drawn vw vh img)\<rparr>)"
proof -
  have "(\<forall>x < min 10 vw. \<forall>y < min 10 vh.
           black (paint vw vh img (clearRect vw vh transparent) x y))
      \<longleftrightarrow> (\<forall>x < min 10 vw. \<forall>y < min 10 vh. black (img x y))"
    by (auto simp: paint_def)
  with assms show ?thesis
    by (simp add: capture_frame_def Let_def isBlank_getImageData drawn_def canvas_all_updated)
qed

lemma capture_frame_Some:
  assumes "fst (capture_frame p h c s) = Some c'"
  shows "\<exists>vw vh img. resolved_dimensions p h = (vw, vh) \<and> vw \<noteq> 0 \<and> vh \<noteq> 0
       \<and> getContext2d h \<and> drawImage h vw vh = Inr img
       \<and> \<not> (\<forall>x < min 10 vw. \<forall>y < min 10 vh. black (img x y))
       \<and> c' = c
       \<and> snd (capture_frame p h c s) = s\<lparr>canvases := (canvases s)(c := drawn vw vh img)\<rparr>"
proof -
  obtain vw vh where d: "resolved_dimensions p h = (vw, vh)"
    by (cases "resolved_dimensions p h")
  from assms d have n: "vw \<noteq> 0" "vh \<noteq> 0" "getContext2d h"
    by (auto simp: capture_frame_def split: if_splits)
  from assms d n obtain img where i: "drawImage h vw vh = Inr img"
    by (cases "drawImage h vw vh") (auto simp: capture_frame_def Let_def)
  from assms show ?thesis
    unfolding capture_frame_drawn [OF d n i]
    by (auto simp: d n i split: if_splits)
qed

lemma capture_Some:
  assumes "fst (capture p h s) = Some c"
  shows "\<exists>vw vh img. resolved_dimensions p h = (vw, vh) \<and> vw \<noteq> 0 \<and> vh \<noteq> 0
       \<and> getContext2d h \<and> drawImage h vw vh = Inr img
       \<and> \<not> (\<forall>x < min 10 vw. \<forall>y < min 10 vh. black (img x y))
       \<and> canvasRef s = Some c
       \<and> snd (capture p h s) =
           (if readyState h 0 < 2 then s\<lparr>awaited := awaited s @ [500]\<rparr> else s)
             \<lparr>canvases := (canvases s)(c := drawn vw vh img)\<rparr>"
proof -
  from capture_result [OF assms] obtain v where a: "videoRef s = Some v" "canvasRef s = Some c"
      "isActive s"
    by auto
  let ?s = "if readyState h 0 < 2 then s\<lparr>awaited := awaited s @ [500]\<rparr> else s"
  from assms have f: "fst (capture_frame p h c ?s) = Some c"
      "capture p h s = capture_frame p h c ?s"
    unfolding capture_active [OF a] by (simp_all split: if_splits)
  from capture_frame_Some [OF f(1)] obtain vw vh img where
    "resolved_dimensions p h = (vw, vh)" "vw \<noteq> 0" "vh \<noteq> 0" "getContext2d h"
    "drawImage h vw vh = Inr img" "\<not> (\<forall>x < min 10 vw. \<forall>y < min 10 vh. black (img x y))"
    "snd (capture_frame p h c ?s) = ?s\<lparr>canvases := (canvases ?s)(c := drawn vw vh img)\<rparr>"
    by blast
  moreover have "canvases ?s = canvases s"
    by simp
  ultimately show ?thesis
    using a(2) f(2) by (intro exI [of _ vw] exI [of _ vh] exI [of _ img]) simp
qed

text \<open>
  C5: let the session be active, the video ready, the resolved dimensions non-zero, the
  drawing context available and the draw succeed with the image \<open>img\<close>. Then
  \<^verbatim>\<open>capture\<close> returns none exactly when every pixel of the top-left block of at most 10
  by 10 pixels has its red, green and blue channels zero, whatever its alpha channel. In
  particular a frame that is black everywhere gives none.
\<close>

theorem capture_blank_check:
  assumes "videoRef s = Some v" and "canvasRef s = Some c" and "isActive s"
    and "2 \<le> readyState h 0 \<or> (isMobile h \<and> 1 \<le> readyState h 0 \<and> 2 \<le> readyState h 500)"
    and "resolved_dimensions p h = (vw, vh)" and "vw \<noteq> 0" and "vh \<noteq> 0"
    and "getContext2d h" and "drawImage h vw vh = Inr img"
  shows "(fst (capture p h s) = None \<longleftrightarrow> (\<forall>x < min 10 vw. \<forall>y < min 10 vh. black (img x y)))
     \<and> ((\<forall>x y. black (img x y)) \<longrightarrow> fst (capture p h s) = None)"
  using assms(4)
  unfolding capture_active [OF assms(1-3)]
  by (auto simp: capture_frame_drawn [OF assms(5-9)])

theorem capture_blank_check_witness:
  "videoRef session_example \<noteq> None \<and> canvasRef session_example = Some 0
   \<and> isActive session_example \<and> 2 \<le> readyState browser_black 0
   \<and> resolved_dimensions props_default browser_black = (640, 480)
   \<and> getContext2d browser_black
   \<and> drawImage browser_black 640 480 = Inr (\<lambda>x y. (0, 0, 0, 255))
   \<and> fst (capture props_default browser_black session_example) = None
   \<and> drawImage browser_example 640 480 = Inr (\<lambda>x y. (200, 180, 160, 255))
   \<and> fst (capture props_default browser_example session_example) \<noteq> None"
proof -
  have s: "videoRef session_example
             = Some \<lparr>srcObject = Some \<lparr>getTracks = [4, 7]\<rparr>, muted = True, attributes = []\<rparr>"
    "canvasRef session_example = Some 0" "isActive session_example"
    by (simp_all add: session_example_def mounted_def)
  have b: "2 \<le> readyState browser_black 0
        \<or> (isMobile browser_black \<and> 1 \<le> readyState browser_black 0
            \<and> 2 \<le> readyState browser_black 500)"
    "resolved_dimensions props_default browser_black = (640, 480)"
    "(640 :: nat) \<noteq> 0" "(480 :: nat) \<noteq> 0"
    "getContext2d browser_black"
    "drawImage browser_black 640 480 = Inr (\<lambda>x y. (0, 0, 0, 255))"
    by (simp_all add: browser_black_def browser_example_def resolved_dimensions_def)
  have e: "2 \<le> readyState browser_example 0
        \<or> (isMobile browser_example \<and> 1 \<le> readyState browser_example 0
            \<and> 2 \<le> readyState browser_example 500)"
    "resolved_dimensions props_default browser_example = (640, 480)"
    "(640 :: nat) \<noteq> 0" "(480 :: nat) \<noteq> 0"
    "getContext2d browser_example"
    "drawImage browser_example 640 480 = Inr (\<lambda>x y. (200, 180, 160, 255))"
    by (simp_all add: browser_example_def resolved_dimensions_def)
  have "\<not> (\<forall>x < min 10 (640 :: nat). \<forall>y < min 10 (480 :: nat).
            black ((200, 180, 160, 255) :: pixel))"
    by (auto intro!: exI [of _ 0])
  moreover have "2 \<le> readyState browser_black 0"
    by (simp add: browser_black_def browser_example_def)
  ultimately show ?thesis
    using capture_blank_check [OF s b] capture_blank_check [OF s e] s b(2-) e(2-)
    by auto
qed

lemma perform_inactive:
  assumes "\<not> isActive s" and "fst (perform p c s) \<noteq> StartResult (Some True)"
  shows "\<not> isActive (snd (perform p c s))"
proof (cases c)
  case (CallStart h)
  with assms startCamera_cases [of h s] show ?thesis
    by (auto split: prod.splits)
next
  case CallStop
  then show ?thesis
    by (simp add: stopCamera_def Let_def split: option.splits)
next
  case (CallCapture h)
  with assms capture_fields [of p h s] show ?thesis
    by (auto split: prod.splits)
qed

lemma perform_all_inactive:
  "\<not> isActive s \<Longrightarrow> StartResult (Some True) \<notin> set (fst (perform_all p cs s)) \<Longrightarrow>
   \<not> isActive (snd (perform_all p cs s))"
proof (induction cs arbitrary: s)
  case Nil
  then show ?case by simp
next
  case (Cons c cs)
  obtain r s' where r: "perform p c s = (r, s')"
    by (cases "perform p c s")
  obtain rs s'' where rs: "perform_all p cs s' = (rs, s'')"
    by (cases "perform_all p cs s'")
  from Cons.prems(2) r rs have n: "r \<noteq> StartResult (Some True)" "StartResult (Some True) \<notin> set rs"
    by auto
  from perform_inactive [OF Cons.prems(1), of p c] r n(1) have "\<not> isActive s'"
    by simp
  from Cons.IH [OF this] rs n(2) r show ?case
    by simp
qed

text \<open>
  C6: \<^verbatim>\<open>capture\<close> has no throwing path (its result is none or a canvas). It returns
  none, leaving the state as it is, when the video element or the canvas is missing or the
  session is inactive, and when the readiness level is below 2 and the device is not a
  mobile one at level 1. It returns none when the level is below 2 at the call and still
  below 2 after the wait of 500 milliseconds. It returns none when a resolved dimension is
  zero; off mobile devices the resolved dimensions are the natural ones. It waits at most
  once, 500 milliseconds, and only on a mobile device at level 1 with the session active.
  After any sequence of calls from an inactive state in which no \<^verbatim>\<open>startCamera\<close>
  returned true, \<^verbatim>\<open>capture\<close> returns none.
\<close>

theorem capture_preconditions:
  "(videoRef s = None \<or> canvasRef s = None \<or> \<not> isActive s \<longrightarrow> capture p h s = (None, s))
   \<and> (readyState h 0 < 2 \<and> \<not> (isMobile h \<and> 1 \<le> readyState h 0) \<longrightarrow>
        capture p h s = (None, s))
   \<and> (readyState h 0 < 2 \<and> readyState h 500 < 2 \<longrightarrow> fst (capture p h s) = None)
   \<and> (fst (resolved_dimensions p h) = 0 \<or> snd (resolved_dimensions p h) = 0 \<longrightarrow>
        fst (capture p h s) = None)
   \<and> (\<not> isMobile h \<longrightarrow> resolved_dimensions p h = (videoWidth h, videoHeight h))
   \<and> (awaited (snd (capture p h s)) = awaited s
       \<or> awaited (snd (capture p h s)) = awaited s @ [500]
          \<and> isMobile h \<and> readyState h 0 = 1 \<and> isActive s)
   \<and> (\<forall>cs s0. \<not> isActive s0 \<and> StartResult (Some True) \<notin> set (fst (perform_all p cs s0)) \<longrightarrow>
         fst (capture p h (snd (perform_all p cs s0))) = None)"
proof (intro conjI allI impI)
  assume "videoRef s = None \<or> canvasRef s = None \<or> \<not> isActive s"
  then show "capture p h s = (None, s)"
    by (rule capture_inactive)
next
  assume "readyState h 0 < 2 \<and> \<not> (isMobile h \<and> 1 \<le> readyState h 0)"
  then show "capture p h s = (None, s)"
    by (auto simp: capture_def split: option.splits)
next
  assume "readyState h 0 < 2 \<and> readyState h 500 < 2"
  then show "fst (capture p h s) = None"
    by (auto simp: capture_def Let_def split: option.splits)
next
  assume "fst (resolved_dimensions p h) = 0 \<or> snd (resolved_dimensions p h) = 0"
  then have "fst (capture_frame p h c s') = None" for c s'
    by (auto simp: capture_frame_def split: prod.splits)
  then show "fst (capture p h s) = None"
    by (auto simp: capture_def Let_def split: option.splits)
next
  assume "\<not> isMobile h"
  then show "resolved_dimensions p h = (videoWidth h, videoHeight h)"
    by (simp add: resolved_dimensions_def)
next
  show "awaited (snd (capture p h s)) = awaited s
       \<or> awaited (snd (capture p h s)) = awaited s @ [500]
          \<and> isMobile h \<and> readyState h 0 = 1 \<and> isActive s"
    by (auto simp: capture_def Let_def capture_frame_fields split: option.splits)
next
  fix cs s0
  assume "\<not> isActive s0 \<and> StartResult (Some True) \<notin> set (fst (perform_all p cs s0))"
  then have "\<not> isActive (snd (perform_all p cs s0))"
    using perform_all_inactive by blast
  then show "fst (capture p h (snd (perform_all p cs s0))) = None"
    by (simp add: capture_inactive)
qed

theorem capture_preconditions_witness:
  "\<not> isActive mounted
   \<and> capture props_default browser_example mounted = (None, mounted)
   \<and> fst (perform_all props_default [CallStart browser_unavailable, CallStop] mounted)
       = [StartResult (Some False), StopResult]
   \<and> fst (capture props_default browser_example
            (snd (perform_all props_default [CallStart browser_unavailable, CallStop] mounted)))
       = None
   \<and> isActive session_example \<and> isMobile browser_slow
   \<and> readyState browser_slow 0 = 1 \<and> readyState browser_slow 500 = 1
   \<and> fst (capture props_default browser_slow session_example) = None
   \<and> awaited (snd (capture props_default browser_slow session_example)) = [500]"
proof -
  note t = capture_preconditions [of _ props_default]
  have i: "\<not> isActive mounted"
    by (simp add: mounted_def)
  have r: "fst (perform_all props_default [CallStart browser_unavailable, CallStop] mounted)
       = [StartResult (Some False), StopResult]"
    by (simp add: startCamera_def try_block_def browser_unavailable_def browser_example_def
          Let_def split: prod.splits)
  have n: "\<not> isActive mounted
      \<and> StartResult (Some True)
          \<notin> set (fst (perform_all props_default [CallStart browser_unavailable, CallStop] mounted))"
    unfolding r using i by simp
  have b: "isActive session_example" "isMobile browser_slow"
    "readyState browser_slow 0 = 1" "readyState browser_slow 500 = 1"
    by (simp_all add: session_example_def browser_slow_def)
  then have w: "readyState browser_slow 0 < 2 \<and> readyState browser_slow 500 < 2"
    by simp
  have a: "awaited (snd (capture props_default browser_slow session_example)) = [500]"
    using t [of session_example browser_slow, THEN conjunct2, THEN conjunct2, THEN conjunct2,
        THEN conjunct2, THEN conjunct2, THEN conjunct1] b
    by (simp add: capture_def session_example_def mounted_def Let_def)
  from t [of mounted browser_example, THEN conjunct1] i
    t [of mounted browser_example, THEN conjunct2, THEN conjunct2, THEN conjunct2, THEN conjunct2,
        THEN conjunct2, THEN conjunct2, rule_format, OF n]
    t [of session_example browser_slow, THEN conjunct2, THEN conjunct2, THEN conjunct1] w r b a
  show ?thesis
    by simp
qed

text \<open>
  C7, as amended: the canvas a successful \<^verbatim>\<open>capture\<close> returns has the resolved
  dimensions. These are the natural dimensions of the video whenever both are non-zero,
  which is always so off mobile devices; when a natural dimension is zero (then the device
  is a mobile one) they are the client size of the video element, each replaced by the
  configured width or height when zero.
\<close>

theorem capture_dimensions:
  assumes "fst (capture p h s) = Some c"
  shows "(canvas_width (canvases (snd (capture p h s)) c),
          canvas_height (canvases (snd (capture p h s)) c)) = resolved_dimensions p h
     \<and> (videoWidth h \<noteq> 0 \<and> videoHeight h \<noteq> 0 \<longrightarrow>
          resolved_dimensions p h = (videoWidth h, videoHeight h))
     \<and> (\<not> isMobile h \<longrightarrow> resolved_dimensions p h = (videoWidth h, videoHeight h))
     \<and> (videoWidth h = 0 \<or> videoHeight h = 0 \<longrightarrow>
          isMobile h
          \<and> resolved_dimensions p h
              = (if clientWidth h \<noteq> 0 then clientWidth h else width p,
                 if clientHeight h \<noteq> 0 then clientHeight h else height p))"
proof -
  from capture_Some [OF assms] obtain vw vh img where
    d: "resolved_dimensions p h = (vw, vh)" "vw \<noteq> 0" "vh \<noteq> 0"
    and s: "snd (capture p h s) =
           (if readyState h 0 < 2 then s\<lparr>awaited := awaited s @ [500]\<rparr> else s)
             \<lparr>canvases := (canvases s)(c := drawn vw vh img)\<rparr>"
    by blast
  have "(canvas_width (canvases (snd (capture p h s)) c),
          canvas_height (canvases (snd (capture p h s)) c)) = resolved_dimensions p h"
    by (simp add: s d drawn_def)
  moreover have "videoWidth h = 0 \<or> videoHeight h = 0 \<longrightarrow> isMobile h"
    using d by (auto simp: resolved_dimensions_def split: if_splits)
  ultimately show ?thesis
    by (auto simp: resolved_dimensions_def)
qed

theorem capture_dimensions_witness:
  "fst (capture props_default browser_example session_example) = Some 0
   \<and> videoWidth browser_example = 640 \<and> videoHeight browser_example = 480
   \<and> canvas_width (canvases (snd (capture props_default browser_example session_example)) 0) = 640
   \<and> canvas_height (canvases (snd (capture props_default browser_example session_example)) 0) = 480"
proof -
  have s: "videoRef session_example
             = Some \<lparr>srcObject = Some \<lparr>getTracks = [4, 7]\<rparr>, muted = True, attributes = []\<rparr>"
    "canvasRef session_example = Some 0" "isActive session_example"
    by (simp_all add: session_example_def mounted_def)
  have e: "resolved_dimensions props_default browser_example = (640, 480)"
    "(640 :: nat) \<noteq> 0" "(480 :: nat) \<noteq> 0"
    "getContext2d browser_example"
    "drawImage browser_example 640 480 = Inr (\<lambda>x y. (200, 180, 160, 255))"
    by (simp_all add: browser_example_def resolved_dimensions_def)
  have r: "readyState browser_example 0 = 4"
    by (simp add: browser_example_def)
  have "\<not> (\<forall>x < min 10 (640 :: nat). \<forall>y < min 10 (480 :: nat).
            black ((200, 180, 160, 255) :: pixel))"
    by (auto intro!: exI [of _ 0])
  then have c: "fst (capture props_default browser_example session_example) = Some 0"
    unfolding capture_active [OF s] capture_frame_drawn [OF e] by (simp add: r)
  have v: "videoWidth browser_example = 640" "videoHeight browser_example = 480"
    by (simp_all add: browser_example_def)
  from capture_dimensions [OF c] c v e(1) show ?thesis
    by simp
qed

text \<open>
  C7 as stated fails: on a mobile device that reports natural dimensions 0 by 0, with an
  element of 320 by 240 on screen, \<^verbatim>\<open>capture\<close> succeeds with a canvas of 320 by 240.
\<close>

theorem capture_dimensions_counterexample:
  "fst (capture props_default browser_zero_dimensions session_example) = Some 0
   \<and> canvas_width
        (canvases (snd (capture props_default browser_zero_dimensions session_example)) 0) = 320
   \<and> canvas_height
        (canvases (snd (capture props_default browser_zero_dimensions session_example)) 0) = 240
   \<and> videoWidth browser_zero_dimensions = 0 \<and> videoHeight browser_zero_dimensions = 0"
proof -
  have s: "videoRef session_example
             = Some \<lparr>srcObject = Some \<lparr>getTracks = [4, 7]\<rparr>, muted = True, attributes = []\<rparr>"
    "canvasRef session_example = Some 0" "isActive session_example"
    by (simp_all add: session_example_def mounted_def)
  have e: "resolved_dimensions props_default browser_zero_dimensions = (320, 240)"
    "(320 :: nat) \<noteq> 0" "(240 :: nat) \<noteq> 0"
    "getContext2d browser_zero_dimensions"
    "drawImage browser_zero_dimensions 320 240 = Inr (\<lambda>x y. (200, 180, 160, 255))"
    by (simp_all add: browser_zero_dimensions_def browser_example_def resolved_dimensions_def)
  have r: "readyState browser_zero_dimensions 0 = 4"
    by (simp add: browser_zero_dimensions_def browser_example_def)
  have "\<not> (\<forall>x < min 10 (320 :: nat). \<forall>y < min 10 (240 :: nat).
            black ((200, 180, 160, 255) :: pixel))"
    by (auto intro!: exI [of _ 0])
  then have c: "capture props_default browser_zero_dimensions session_example
      = (Some 0, session_example\<lparr>canvases := (canvases session_example)
            (0 := drawn 320 240 (\<lambda>x y. (200, 180, 160, 255)))\<rparr>)"
    unfolding capture_active [OF s] capture_frame_drawn [OF e] by (simp add: r)
  show ?thesis
    unfolding c by (simp add: drawn_def browser_zero_dimensions_def)
qed

text \<open>
  C9, as amended: a successful \<^verbatim>\<open>capture\<close> returns the reference held in
  \<^verbatim>\<open>canvasRef\<close>, which the component keeps. Two successive successful calls return the
  same reference, and after the second call the canvas behind it holds the second frame at
  the second call's dimensions: what the first call drew is overwritten.
\<close>

theorem capture_returns_own_canvas:
  assumes "fst (capture p h1 s) = Some c1"
    and "fst (capture p h2 (snd (capture p h1 s))) = Some c2"
  shows "canvasRef s = Some c1
     \<and> canvasRef (snd (capture p h1 s)) = Some c1
     \<and> c2 = c1
     \<and> canvasRef (snd (capture p h2 (snd (capture p h1 s)))) = Some c1
     \<and> (\<exists>img. drawImage h2 (fst (resolved_dimensions p h2)) (snd (resolved_dimensions p h2)) = Inr img
          \<and> canvases (snd (capture p h2 (snd (capture p h1 s)))) c1
              = drawn (fst (resolved_dimensions p h2)) (snd (resolved_dimensions p h2)) img)"
proof -
  let ?s1 = "snd (capture p h1 s)"
  from capture_Some [OF assms(1)] have 1: "canvasRef s = Some c1"
    by blast
  then have 2: "canvasRef ?s1 = Some c1"
    by (simp add: capture_fields)
  from capture_Some [OF assms(2)] obtain vw vh img where
    d: "resolved_dimensions p h2 = (vw, vh)" "drawImage h2 vw vh = Inr img"
      "canvasRef ?s1 = Some c2"
      "snd (capture p h2 ?s1) =
           (if readyState h2 0 < 2 then ?s1\<lparr>awaited := awaited ?s1 @ [500]\<rparr> else ?s1)
             \<lparr>canvases := (canvases ?s1)(c2 := drawn vw vh img)\<rparr>"
    by blast
  from 2 d(3) have c: "c2 = c1"
    by simp
  have "canvases (snd (capture p h2 ?s1)) c1 = drawn vw vh img"
    by (simp add: d(4) c)
  with 1 2 c d(1,2) show ?thesis
    by (simp add: capture_fields)
qed

lemma capture_example_first:
  "capture props_default browser_example session_example
     = (Some 0,
        session_example\<lparr>canvases := (canvases session_example)
            (0 := drawn 640 480 (\<lambda>x y. (200, 180, 160, 255)))\<rparr>)"
proof -
  have s: "videoRef session_example
             = Some \<lparr>srcObject = Some \<lparr>getTracks = [4, 7]\<rparr>, muted = True, attributes = []\<rparr>"
    "canvasRef session_example = Some 0" "isActive session_example"
    by (simp_all add: session_example_def mounted_def)
  have e: "resolved_dimensions props_default browser_example = (640, 480)"
    "(640 :: nat) \<noteq> 0" "(480 :: nat) \<noteq> 0"
    "getContext2d browser_example"
    "drawImage browser_example 640 480 = Inr (\<lambda>x y. (200, 180, 160, 255))"
    by (simp_all add: browser_example_def resolved_dimensions_def)
  have r: "readyState browser_example 0 = 4"
    by (simp add: browser_example_def)
  have "\<not> (\<forall>x < min 10 (640 :: nat). \<forall>y < min 10 (480 :: nat).
            black ((200, 180, 160, 255) :: pixel))"
    by (auto intro!: exI [of _ 0])
  then show ?thesis
    unfolding capture_active [OF s] capture_frame_drawn [OF e] by (simp add: r)
qed

lemma capture_example_second:
  "capture props_default browser_second_frame
     (session_example\<lparr>canvases := (canvases session_example)
            (0 := drawn 640 480 (\<lambda>x y. (200, 180, 160, 255)))\<rparr>)
     = (Some 0,
        session_example\<lparr>canvases := (canvases session_example)
            (0 := drawn 640 480 (\<lambda>x y. (10, 20, 30, 255)))\<rparr>)"
proof -
  let ?s1 = "session_example\<lparr>canvases := (canvases session_example)
            (0 := drawn 640 480 (\<lambda>x y. (200, 180, 160, 255)))\<rparr>"
  have s1: "videoRef ?s1
             = Some \<lparr>srcObject = Some \<lparr>getTracks = [4, 7]\<rparr>, muted = True, attributes = []\<rparr>"
    "canvasRef ?s1 = Some 0" "isActive ?s1"
    by (simp_all add: session_example_def mounted_def)
  have f: "resolved_dimensions props_default browser_second_frame = (640, 480)"
    "(640 :: nat) \<noteq> 0" "(480 :: nat) \<noteq> 0"
    "getContext2d browser_second_frame"
    "drawImage browser_second_frame 640 480 = Inr (\<lambda>x y. (10, 20, 30, 255))"
    by (simp_all add: browser_second_frame_def browser_example_def resolved_dimensions_def)
  have r: "readyState browser_second_frame 0 = 4"
    by (simp add: browser_example_def browser_second_frame_def)
  have "\<not> (\<forall>x < min 10 (640 :: nat). \<forall>y < min 10 (480 :: nat).
            black ((10, 20, 30, 255) :: pixel))"
    by (auto intro!: exI [of _ 0])
  then show ?thesis
    unfolding capture_active [OF s1] capture_frame_drawn [OF f] by (simp add: r)
qed

theorem capture_returns_own_canvas_witness:
  "fst (capture props_default browser_example session_example) = Some 0
   \<and> fst (capture props_default browser_second_frame
           (snd (capture props_default browser_example session_example))) = Some 0
   \<and> canvasRef session_example = Some 0
   \<and> canvasRef (snd (capture props_default browser_second_frame
           (snd (capture props_default browser_example session_example)))) = Some 0
   \<and> canvases (snd (capture props_default browser_second_frame
           (snd (capture props_default browser_example session_example)))) 0
       = drawn 640 480 (\<lambda>x y. (10, 20, 30, 255))"
proof -
  have 1: "fst (capture props_default browser_example session_example) = Some 0"
    by (simp add: capture_example_first)
  have 2: "fst (capture props_default browser_second_frame
           (snd (capture props_default browser_example session_example))) = Some 0"
    by (simp add: capture_example_first capture_example_second)
  have f: "resolved_dimensions props_default browser_second_frame = (640, 480)"
    "drawImage browser_second_frame 640 480 = Inr (\<lambda>x y. (10, 20, 30, 255))"
    by (simp_all add: browser_second_frame_def browser_example_def resolved_dimensions_def)
  from capture_returns_own_canvas [OF 1 2] 1 2 show ?thesis
    by (auto simp: f)
qed

text \<open>
  C9 as stated fails: two successive captures of different frames both return reference 0,
  the canvas the component itself holds, and the pixel the first call drew is replaced by
  the pixel of the second frame.
\<close>

theorem capture_returns_own_canvas_counterexample:
  "fst (capture props_default browser_example session_example) = Some 0
   \<and> fst (capture props_default browser_second_frame
           (snd (capture props_default browser_example session_example))) = Some 0
   \<and> canvasRef (snd (capture props_default browser_example session_example)) = Some 0
   \<and> bitmap (canvases (snd (capture props_default browser_example session_example)) 0) 0 0
       = (200, 180, 160, 255)
   \<and> bitmap (canvases (snd (capture props_default browser_second_frame
                (snd (capture props_default browser_example session_example)))) 0) 0 0
       = (10, 20, 30, 255)"
  unfolding capture_example_first snd_conv fst_conv capture_example_second
  by (simp add: drawn_def paint_def session_example_def mounted_def)

section \<open>The second source file compared\<close>

text \<open>
  Where the second file differs from the component specified: its wait can stay pending
  for ever (no event, readiness level below 2 at its timer), where the component gives up
  after the ultimate timeout; its handler can run twice, calling \<^verbatim>\<open>resolve\<close> twice,
  of which the promise takes the first; an opaque black frame passes its blank check; and
  a zero natural width is replaced by the configured width on any device. Where it agrees:
  every failure caught sets the permission flag to false, and the canvas returned is the
  one the component holds.
\<close>

lemma all_less_4: "(\<forall>i < 4. P i) \<longleftrightarrow> P 0 \<and> P 1 \<and> P 2 \<and> P (3 :: nat)"
proof -
  have "i < 4 \<longleftrightarrow> i = 0 \<or> i = 1 \<or> i = 2 \<or> i = 3" for i :: nat
    by arith
  then show ?thesis
    by auto
qed

lemma every_channel_zero:
  "every (\<lambda>channel index. channel = 0) (getImageData bm 1 1) \<longleftrightarrow> bm 0 0 = (0, 0, 0, 0)"
  by (cases "bm 0 0") (simp add: every_iff getImageData_def all_less_4)

lemma every_channel_zero_Suc:
  "every (\<lambda>channel index. channel = 0) (getImageData bm (Suc 0) (Suc 0))
     \<longleftrightarrow> bm 0 0 = (0, 0, 0, 0)"
  using every_channel_zero [of bm] by simp

lemma second_file_wait_can_hang:
  "fst (startCamera2 browser_silent mounted) = None
   \<and> fst (startCamera browser_silent mounted) = Some False"
proof -
  have "waitForVideo2_run browser_silent = [initial_wait2, initial_wait2]"
    by (simp add: waitForVideo2_run_def browser_silent_def browser_example_def
          initial_queue2_def set_timers_def event_loop2.simps)
  then have "settled (waitForVideo2 browser_silent) = []"
    by (simp add: waitForVideo2_def initial_wait2_def)
  then have "fst (startCamera2 browser_silent mounted) = None"
    by (simp add: startCamera2_def try_block2_def Let_def browser_silent_def
          browser_example_def mounted_def)
  moreover have "(\<forall>(time, e) \<in> set (video_events browser_silent).
        ultimate_delay (isMobile browser_silent) \<le> time)
      \<and> readyState browser_silent (fallback_delay (isMobile browser_silent)) < 2"
    by (simp add: browser_silent_def)
  then have "promise_of (settled (waitForVideo browser_silent))
      = Rejected (new_Error (not_ready_message (isMobile browser_silent)))"
    using waitForVideo_ultimate [of browser_silent] by blast
  then have "fst (startCamera browser_silent mounted) = Some False"
    using startCamera_cases [of browser_silent mounted]
      startCamera_True_Fulfilled [of browser_silent mounted]
    by auto
  ultimately show ?thesis
    by simp
qed

lemma second_file_handler_runs_twice:
  "settled (waitForVideo2 browser_example) = [Resolve, Resolve]
   \<and> promise_of (settled (waitForVideo2 browser_example)) = Fulfilled"
proof -
  have "waitForVideo2_run browser_example
     = [initial_wait2,
        \<lparr>resolved = False, listeners = {}, settled = [Resolve]\<rparr>,
        \<lparr>resolved = False, listeners = {}, settled = [Resolve]\<rparr>,
        \<lparr>resolved = False, listeners = {}, settled = [Resolve, Resolve]\<rparr>]"
    by (simp add: waitForVideo2_run_def browser_example_def initial_queue2_def set_timers_def
          event_loop2.simps initial_wait2_def onLoadedData2_def removeListeners2_def Let_def)
  then show ?thesis
    by (simp add: waitForVideo2_def)
qed

lemma second_file_black_frame_passes:
  "fst (capture2 props_default browser_black session_example) = Some 0
   \<and> fst (capture props_default browser_black session_example) = None"
proof -
  have "fst (capture2 props_default browser_black session_example) = Some 0"
    by (simp add: capture2_def session_example_def mounted_def browser_black_def
          browser_example_def Let_def every_channel_zero_Suc paint_def)
  moreover have "fst (capture props_default browser_black session_example) = None"
  proof -
    have s: "videoRef session_example
             = Some \<lparr>srcObject = Some \<lparr>getTracks = [4, 7]\<rparr>, muted = True, attributes = []\<rparr>"
      "canvasRef session_example = Some 0" "isActive session_example"
      by (simp_all add: session_example_def mounted_def)
    have b: "resolved_dimensions props_default browser_black = (640, 480)"
      "(640 :: nat) \<noteq> 0" "(480 :: nat) \<noteq> 0"
      "getContext2d browser_black"
      "drawImage browser_black 640 480 = Inr (\<lambda>x y. (0, 0, 0, 255))"
      "readyState browser_black 0 = 4"
      by (simp_all add: browser_black_def browser_example_def resolved_dimensions_def)
    show ?thesis
      unfolding capture_active [OF s] capture_frame_drawn [OF b(1-5)] by (simp add: b(6))
  qed
  ultimately show ?thesis
    by simp
qed

lemma second_file_dimensions_fallback:
  "fst (capture2 props_default (browser_example\<lparr>videoWidth := 0\<rparr>) session_example) = Some 0
   \<and> canvas_width (canvases (snd (capture2 props_default (browser_example\<lparr>videoWidth := 0\<rparr>)
        session_example)) 0) = 320"
  by (simp add: capture2_def session_example_def mounted_def browser_example_def Let_def
        every_channel_zero_Suc paint_def props_default_def)

lemma second_file_failure_revokes_permission:
  "try_block2 h s = (Threw e, s') \<Longrightarrow>
   fst (startCamera2 h s) = Some False \<and> hasPermission (snd (startCamera2 h s)) = Some False"
  by (simp add: startCamera2_def catch_block_def Let_def)

lemma second_file_returns_own_canvas:
  "fst (capture2 p h s) = Some c \<Longrightarrow> canvasRef s = Some c"
  by (auto simp: capture2_def Let_def split: option.splits if_splits sum.splits)

end
